theory Spec2Isabelle
  imports Main "HOL-Library.AList"
begin

section \<open>Data model of the relayer\<close>

text \<open>
  The repository holds two versions of the relayer: \<^verbatim>\<open>src/backend/Server.js\<close> and a second
  file (\<^verbatim>\<open>src/unnamed/part_000\<close>). Their \<^verbatim>\<open>processTransaction\<close> differ in the destination
  of the transfer, their \<^verbatim>\<open>/jump\<close> handlers in when and what they answer; everything else
  modelled here is the same text in both. The configuration says which file runs and what
  \<^verbatim>\<open>process.env.OWNER_WALLET\<close> holds (\<open>None\<close> when the variable is not set).
\<close>

datatype source_file = Backend_Server_js | Unnamed_part_000

record config =
  running :: source_file
  OWNER_WALLET :: "string option"

type_synonym handle = string

text \<open>A thrown or rejected JavaScript \<^verbatim>\<open>Error\<close>; the code only ever reads its \<^verbatim>\<open>message\<close>.\<close>

datatype js_error = Error (message: string)

datatype receipt = Receipt (blockNumber: nat)

text \<open>
  What \<^verbatim>\<open>provider.getFeeData()\<close> resolves to: each component is a bigint or \<^verbatim>\<open>null\<close>.
  The test \<^verbatim>\<open>!x\<close> of the source is true for \<^verbatim>\<open>null\<close> and for \<^verbatim>\<open>0n\<close>.
\<close>

record feeData =
  maxPriorityFeePerGas :: "nat option"
  maxFeePerGas :: "nat option"

fun falsy :: "nat option \<Rightarrow> bool" where
  "falsy None = True"
| "falsy (Some k) = (k = 0)"

text \<open>The transaction request object of lines 82-89.\<close>

record tx =
  tx_to :: "string option"
  tx_value :: nat
  tx_gasLimit :: nat
  tx_nonce :: nat
  tx_maxPriorityFeePerGas :: "nat option"
  tx_maxFeePerGas :: "nat option"

text \<open>
  The value stored in the \<^verbatim>\<open>pendingTransactions\<close> map: \<^verbatim>\<open>{ nonce, score, address }\<close>. The score
  is the number and the address the string of the request; the code stores and logs them and
  does not look into them.
\<close>

record pending =
  pt_nonce :: nat
  pt_score :: int
  pt_address :: string

text \<open>
  The object \<^verbatim>\<open>processTransaction\<close> resolves to. A property the object does not have
  (\<^verbatim>\<open>undefined\<close> when read) is \<open>None\<close>.
\<close>

record result =
  success :: bool
  transactionHash :: "handle option"
  error :: "string option"

text \<open>The lines written with \<^verbatim>\<open>console.log\<close> and \<^verbatim>\<open>console.error\<close>, one constructor a call site.\<close>

datatype console_line =
    LogUsingNonce nat int
  | LogTransactionSent int handle
  | LogConfirmed nat handle
  | ErrFailedAfterSending js_error
  | ErrTransactionFailed js_error
  | LogChecking
  | LogResending handle
  | LogAlreadyConfirmed handle
  | LogNoPending
  | LogProcessingJump int string

text \<open>
  The state of the server process. \<open>pendingTransactions\<close> is the JavaScript \<^verbatim>\<open>Map\<close>, kept as
  the list of its entries in insertion order: \<^verbatim>\<open>set\<close> is \<^const>\<open>AList.update\<close> (a present key
  keeps its place, a new one goes to the end), \<^verbatim>\<open>delete\<close> is \<^const>\<open>AList.delete\<close>.
  \<open>broadcasts\<close> records the requests handed to \<^verbatim>\<open>nonceManager.sendTransaction\<close>, in order,
  and \<open>watchers\<close> the handles whose \<^verbatim>\<open>transactionResponse.wait()\<close> has not settled yet;
  the program reads neither.
\<close>

record server =
  pendingTransactions :: "(handle \<times> pending) list"
  usedNonces :: "nat set"
  console :: "console_line list"
  broadcasts :: "tx list"
  watchers :: "handle list"

text \<open>
  The network and the ethers objects in front of it are not part of the repository: they
  are a parameter, a machine with a state of its own that answers each call, either with a
  value or by rejecting with an error.
\<close>

record 'n network =
  getNonce :: "'n \<Rightarrow> (js_error + nat) \<times> 'n"
  getFeeData :: "'n \<Rightarrow> (js_error + feeData) \<times> 'n"
  sendTransaction :: "tx \<Rightarrow> 'n \<Rightarrow> (js_error + handle) \<times> 'n"
  getTransactionReceipt :: "handle \<Rightarrow> 'n \<Rightarrow> (js_error + receipt option) \<times> 'n"

section \<open>processTransaction\<close>

definition log :: "console_line \<Rightarrow> server \<Rightarrow> server" where
  "log l s = s\<lparr>console := console s @ [l]\<rparr>"

text \<open>Lines 71-74: the nonce is logged and remembered unless it was logged before.\<close>

definition track_nonce :: "int \<Rightarrow> nat \<Rightarrow> server \<Rightarrow> server" where
  "track_nonce score nonce s =
     (if nonce \<notin> usedNonces s
      then (log (LogUsingNonce nonce score) s)\<lparr>usedNonces := insert nonce (usedNonces s)\<rparr>
      else s)"

text \<open>The message of the error thrown at line 78; it starts with a warning sign (six bytes of UTF-8).\<close>

definition fee_error_message :: string where
  "fee_error_message =
     [CHR 0xE2, CHR 0x9A, CHR 0xA0, CHR 0xEF, CHR 0xB8, CHR 0x8F] @ '' Could not fetch gas fee data.''"

text \<open>\<^verbatim>\<open>ethers.parseEther('0.0001')\<close>, in wei.\<close>

definition parseEther_0_0001 :: nat where
  "parseEther_0_0001 = 100000000000000"

text \<open>
  Lines 81-89. \<^verbatim>\<open>Server.js\<close> sends to \<^verbatim>\<open>OWNER_WALLET\<close>, the other file to the \<^verbatim>\<open>address\<close>
  argument.
\<close>

definition build_tx :: "config \<Rightarrow> nat \<Rightarrow> feeData \<Rightarrow> string \<Rightarrow> tx" where
  "build_tx cfg nonce fd address =
     \<lparr>tx_to = (case running cfg of Backend_Server_js \<Rightarrow> OWNER_WALLET cfg
                              | Unnamed_part_000 \<Rightarrow> Some address),
      tx_value = parseEther_0_0001,
      tx_gasLimit = 21000,
      tx_nonce = nonce,
      tx_maxPriorityFeePerGas = maxPriorityFeePerGas fd,
      tx_maxFeePerGas = maxFeePerGas fd\<rparr>"

text \<open>Lines 92-101, after the broadcast has resolved to a response with hash \<open>hash\<close>.\<close>

definition record_sent :: "int \<Rightarrow> string \<Rightarrow> nat \<Rightarrow> handle \<Rightarrow> server \<Rightarrow> server" where
  "record_sent score address nonce hash s =
     (log (LogTransactionSent score hash) s)
       \<lparr>pendingTransactions :=
          AList.update hash \<lparr>pt_nonce = nonce, pt_score = score, pt_address = address\<rparr>
            (pendingTransactions s),
        watchers := watchers s @ [hash]\<rparr>"

text \<open>
  The \<^verbatim>\<open>try\<close> block of \<^verbatim>\<open>processTransaction\<close>: \<open>Inl e\<close> is the error thrown inside it,
  \<open>Inr hash\<close> the hash it reaches line 103 with.
\<close>

definition processTransaction_try ::
  "config \<Rightarrow> 'n network \<Rightarrow> int \<Rightarrow> string \<Rightarrow> server \<times> 'n \<Rightarrow> (js_error + handle) \<times> server \<times> 'n" where
  "processTransaction_try cfg net score address = (\<lambda>(s, n).
     case getNonce net n of
       (Inl e, n1) \<Rightarrow> (Inl e, s, n1)
     | (Inr nonce, n1) \<Rightarrow>
         (let s1 = track_nonce score nonce s in
          (case getFeeData net n1 of
             (Inl e, n2) \<Rightarrow> (Inl e, s1, n2)
           | (Inr fd, n2) \<Rightarrow>
               (if falsy (maxPriorityFeePerGas fd) \<or> falsy (maxFeePerGas fd)
                then (Inl (Error fee_error_message), s1, n2)
                else
                  (let t = build_tx cfg nonce fd address;
                       s2 = s1\<lparr>broadcasts := broadcasts s1 @ [t]\<rparr>
                   in (case sendTransaction net t n2 of
                         (Inl e, n3) \<Rightarrow> (Inl e, s2, n3)
                       | (Inr hash, n3) \<Rightarrow>
                           (Inr hash, record_sent score address nonce hash s2, n3)))))))"

definition processTransaction ::
  "config \<Rightarrow> 'n network \<Rightarrow> int \<Rightarrow> string \<Rightarrow> server \<times> 'n \<Rightarrow> result \<times> server \<times> 'n" where
  "processTransaction cfg net score address sn =
     (case processTransaction_try cfg net score address sn of
        (Inr hash, s, n) \<Rightarrow>
          (\<lparr>success = True, transactionHash = Some hash, error = None\<rparr>, s, n)
      | (Inl e, s, n) \<Rightarrow>
          (\<lparr>success = False, transactionHash = None, error = Some (message e)\<rparr>,
           log (ErrTransactionFailed e) s, n))"

section \<open>The confirmation callbacks\<close>

text \<open>
  Lines 96-101: the callbacks attached to \<^verbatim>\<open>transactionResponse.wait()\<close>. They run when that
  promise settles, detached from the call that attached them: \<open>Inr receipt\<close> is the
  \<^verbatim>\<open>then\<close> callback, \<open>Inl e\<close> the \<^verbatim>\<open>catch\<close> callback. Neither returns anything to anyone.
\<close>

definition wait_settled :: "handle \<Rightarrow> js_error + receipt \<Rightarrow> server \<Rightarrow> server" where
  "wait_settled hash outcome s =
     (let s0 = s\<lparr>watchers := remove1 hash (watchers s)\<rparr> in
      case outcome of
        Inr rc \<Rightarrow>
          (log (LogConfirmed (blockNumber rc) hash) s0)
            \<lparr>pendingTransactions := AList.delete hash (pendingTransactions s0)\<rparr>
      | Inl e \<Rightarrow> log (ErrFailedAfterSending e) s0)"

section \<open>retryPendingTransactions\<close>

text \<open>
  The \<^verbatim>\<open>for ... of\<close> loop of lines 116-126 walks the live map: an entry added while the loop
  runs is visited too, and the loop need not end. \<open>i\<close> is the position of the iterator in
  the list of entries; deleting the entry under the iterator leaves \<open>i\<close> where it is. The
  first argument bounds the number of times the loop head is reached; \<open>None\<close> says the bound
  was too small. A rejected \<^verbatim>\<open>getTransactionReceipt\<close> is not caught: the function rejects
  with that error (\<open>Inl e\<close>). The pass is modelled with no other task running between its
  steps.
\<close>

fun retry_loop ::
  "nat \<Rightarrow> config \<Rightarrow> 'n network \<Rightarrow> nat \<Rightarrow> bool \<Rightarrow> server \<times> 'n
     \<Rightarrow> ((js_error + bool) \<times> server \<times> 'n) option" where
  "retry_loop 0 cfg net i foundPending (s, n) = None"
| "retry_loop (Suc fuel) cfg net i foundPending (s, n) =
     (if length (pendingTransactions s) \<le> i then Some (Inr foundPending, s, n)
      else
        let txHash = fst (pendingTransactions s ! i);
            data = snd (pendingTransactions s ! i)
        in case getTransactionReceipt net txHash n of
             (Inl e, n1) \<Rightarrow> Some (Inl e, s, n1)
           | (Inr None, n1) \<Rightarrow>
               (case processTransaction cfg net (pt_score data) (pt_address data)
                       (log (LogResending txHash) s, n1) of
                  (r, s2, n2) \<Rightarrow> retry_loop fuel cfg net (Suc i) True (s2, n2))
           | (Inr (Some rc), n1) \<Rightarrow>
               retry_loop fuel cfg net i foundPending
                 ((log (LogAlreadyConfirmed txHash) s)
                    \<lparr>pendingTransactions := AList.delete txHash (pendingTransactions s)\<rparr>, n1))"

definition retryPendingTransactions ::
  "nat \<Rightarrow> config \<Rightarrow> 'n network \<Rightarrow> server \<times> 'n \<Rightarrow> ((js_error + unit) \<times> server \<times> 'n) option" where
  "retryPendingTransactions fuel cfg net = (\<lambda>(s, n).
     case retry_loop fuel cfg net 0 False (log LogChecking s, n) of
       None \<Rightarrow> None
     | Some (Inl e, s', n') \<Rightarrow> Some (Inl e, s', n')
     | Some (Inr foundPending, s', n') \<Rightarrow>
         Some (Inr (), if \<not> foundPending then log LogNoPending s' else s', n'))"

text \<open>
  The same loop, one turn at a time, for what holds while a pass is under way and of a pass
  that does not end. A pass is running, has ended, or was aborted by a rejected
  \<^verbatim>\<open>getTransactionReceipt\<close>; with it go the position of the iterator, \<^verbatim>\<open>foundPending\<close>, the
  state of the server and that of the network. A turn is one arrival at the loop head.
\<close>

datatype pass_status = Running | Ended | Aborted js_error

type_synonym 'n pass_state = "pass_status \<times> nat \<times> bool \<times> server \<times> 'n"

fun retry_visit :: "config \<Rightarrow> 'n network \<Rightarrow> 'n pass_state \<Rightarrow> 'n pass_state" where
  "retry_visit cfg net (Running, i, foundPending, s, n) =
     (if length (pendingTransactions s) \<le> i then (Ended, i, foundPending, s, n)
      else
        let txHash = fst (pendingTransactions s ! i);
            data = snd (pendingTransactions s ! i)
        in case getTransactionReceipt net txHash n of
             (Inl e, n1) \<Rightarrow> (Aborted e, i, foundPending, s, n1)
           | (Inr None, n1) \<Rightarrow>
               (case processTransaction cfg net (pt_score data) (pt_address data)
                       (log (LogResending txHash) s, n1) of
                  (r, s2, n2) \<Rightarrow> (Running, Suc i, True, s2, n2))
           | (Inr (Some rc), n1) \<Rightarrow>
               (Running, i, foundPending,
                (log (LogAlreadyConfirmed txHash) s)
                  \<lparr>pendingTransactions := AList.delete txHash (pendingTransactions s)\<rparr>, n1))"
| "retry_visit cfg net (Ended, c) = (Ended, c)"
| "retry_visit cfg net (Aborted e, c) = (Aborted e, c)"

text \<open>The pass after \<open>k\<close> turns, from line 113 on.\<close>

definition pass_turns :: "nat \<Rightarrow> config \<Rightarrow> 'n network \<Rightarrow> server \<times> 'n \<Rightarrow> 'n pass_state" where
  "pass_turns k cfg net = (\<lambda>(s, n).
     (retry_visit cfg net ^^ k) (Running, 0, False, log LogChecking s, n))"

definition pass_status_of :: "'n pass_state \<Rightarrow> pass_status" where
  "pass_status_of st = fst st"

definition pass_server :: "'n pass_state \<Rightarrow> server" where
  "pass_server st = fst (snd (snd (snd st)))"

text \<open>How often line 119 has been written for the handle \<open>h\<close>: once before each resend.\<close>

definition resends :: "handle \<Rightarrow> server \<Rightarrow> nat" where
  "resends h s = count_list (console s) (LogResending h)"

section \<open>The /jump handler\<close>

datatype response_message =
    Transaction_sent_successfully
  | Transaction_failed
  | Transaction_queued_for_processing

datatype response_log =
    Log_Score int
  | Log_Sender string
  | Log_Transaction_Hash string
  | Log_Status bool

text \<open>
  The body sent with status 202. A field that is \<^verbatim>\<open>null\<close>, or that the body does not have, is
  \<open>None\<close>.
\<close>

record response =
  res_success :: bool
  res_message :: response_message
  res_transactionHash :: "handle option"
  res_error :: "string option"
  res_logs :: "response_log list option"

text \<open>\<^verbatim>\<open>x || d\<close> on a string that may be \<^verbatim>\<open>undefined\<close>: the empty string is falsy as well.\<close>

fun or_else :: "string option \<Rightarrow> 'a \<Rightarrow> (string \<Rightarrow> 'a) \<Rightarrow> 'a" where
  "or_else None d f = d"
| "or_else (Some x) d f = (if x = [] then d else f x)"

text \<open>
  \<^verbatim>\<open>Server.js\<close> (lines 134-152) awaits \<^verbatim>\<open>processTransaction\<close> and answers from what it resolved
  to. The other file answers first, with a constant body, and awaits afterwards.
\<close>

definition jump ::
  "config \<Rightarrow> 'n network \<Rightarrow> int \<Rightarrow> string \<Rightarrow> server \<times> 'n \<Rightarrow> response \<times> server \<times> 'n" where
  "jump cfg net score address = (\<lambda>(s, n).
     case running cfg of
       Backend_Server_js \<Rightarrow>
         (case processTransaction cfg net score address
                 (log (LogProcessingJump score address) s, n) of
            (transactionData, s', n') \<Rightarrow>
              (\<lparr>res_success = success transactionData,
                res_message = (if success transactionData then Transaction_sent_successfully
                               else Transaction_failed),
                res_transactionHash = or_else (transactionHash transactionData) None Some,
                res_error = or_else (error transactionData) None Some,
                res_logs = Some
                  [Log_Score score, Log_Sender address,
                   Log_Transaction_Hash (or_else (transactionHash transactionData) ''N/A'' id),
                   Log_Status (success transactionData)]\<rparr>, s', n'))
     | Unnamed_part_000 \<Rightarrow>
         (case processTransaction cfg net score address (s, n) of
            (transactionData, s', n') \<Rightarrow>
              (\<lparr>res_success = True,
                res_message = Transaction_queued_for_processing,
                res_transactionHash = None,
                res_error = None,
                res_logs = None\<rparr>, s', n')))"

section \<open>Interleaved calls\<close>

text \<open>
  \<^verbatim>\<open>processTransaction\<close> is an \<^verbatim>\<open>async\<close> function: it runs until an \<^verbatim>\<open>await\<close>, gives the thread
  away and is resumed when the awaited call has settled. A task is a call suspended at one of
  its three \<^verbatim>\<open>await\<close>s (lines 70, 76 and 91), with the local variables it holds there, or a
  call that has returned.
\<close>

datatype task =
    AwaitNonce int string
  | AwaitFee int string nat
  | AwaitSend int string nat tx
  | Returned result

definition caught :: "js_error \<Rightarrow> server \<times> 'n \<Rightarrow> task \<times> server \<times> 'n" where
  "caught e = (\<lambda>(s, n).
     (Returned \<lparr>success = False, transactionHash = None, error = Some (message e)\<rparr>,
      log (ErrTransactionFailed e) s, n))"

fun resume :: "config \<Rightarrow> 'n network \<Rightarrow> task \<Rightarrow> server \<times> 'n \<Rightarrow> task \<times> server \<times> 'n" where
  "resume cfg net (AwaitNonce score address) (s, n) =
     (case getNonce net n of
        (Inl e, n1) \<Rightarrow> caught e (s, n1)
      | (Inr nonce, n1) \<Rightarrow> (AwaitFee score address nonce, track_nonce score nonce s, n1))"
| "resume cfg net (AwaitFee score address nonce) (s, n) =
     (case getFeeData net n of
        (Inl e, n2) \<Rightarrow> caught e (s, n2)
      | (Inr fd, n2) \<Rightarrow>
          if falsy (maxPriorityFeePerGas fd) \<or> falsy (maxFeePerGas fd)
          then caught (Error fee_error_message) (s, n2)
          else let t = build_tx cfg nonce fd address
               in (AwaitSend score address nonce t, s\<lparr>broadcasts := broadcasts s @ [t]\<rparr>, n2))"
| "resume cfg net (AwaitSend score address nonce t) (s, n) =
     (case sendTransaction net t n of
        (Inl e, n3) \<Rightarrow> caught e (s, n3)
      | (Inr hash, n3) \<Rightarrow>
          (Returned \<lparr>success = True, transactionHash = Some hash, error = None\<rparr>,
           record_sent score address nonce hash s, n3))"
| "resume cfg net (Returned r) (s, n) = (Returned r, s, n)"

text \<open>A schedule names, step by step, the task that is resumed next.\<close>

fun run_schedule ::
  "config \<Rightarrow> 'n network \<Rightarrow> nat list \<Rightarrow> task list \<times> server \<times> 'n \<Rightarrow> task list \<times> server \<times> 'n" where
  "run_schedule cfg net [] c = c"
| "run_schedule cfg net (i # sched) (ts, s, n) =
     (if i < length ts
      then (case resume cfg net (ts ! i) (s, n) of
              (t', s', n') \<Rightarrow> run_schedule cfg net sched (ts[i := t'], s', n'))
      else run_schedule cfg net sched (ts, s, n))"

text \<open>The nonce a suspended call holds in its local variable \<^verbatim>\<open>nonce\<close>.\<close>

fun held_nonce :: "task \<Rightarrow> nat option" where
  "held_nonce (AwaitNonce score address) = None"
| "held_nonce (AwaitFee score address nonce) = Some nonce"
| "held_nonce (AwaitSend score address nonce t) = Some nonce"
| "held_nonce (Returned r) = None"

text \<open>The answers of \<open>k\<close> successive \<^verbatim>\<open>nonceManager.getNonce()\<close> calls.\<close>

fun nonce_replies :: "'n network \<Rightarrow> nat \<Rightarrow> 'n \<Rightarrow> (js_error + nat) list" where
  "nonce_replies net 0 n = []"
| "nonce_replies net (Suc k) n =
     (case getNonce net n of (r, n') \<Rightarrow> r # nonce_replies net k n')"

fun reply_nonce :: "js_error + nat \<Rightarrow> nat option" where
  "reply_nonce (Inl e) = None"
| "reply_nonce (Inr nonce) = Some nonce"

text \<open>A call that has just been made: it has asked for the nonce and waits at line 70.\<close>

definition start_call :: "int \<times> string \<Rightarrow> task" where
  "start_call c = AwaitNonce (fst c) (snd c)"

section \<open>Example networks\<close>

definition init_server :: server where
  "init_server =
     \<lparr>pendingTransactions = [], usedNonces = {}, console = [], broadcasts = [], watchers = []\<rparr>"

definition Server_js :: config where
  "Server_js = \<lparr>running = Backend_Server_js, OWNER_WALLET = Some ''0xOWNER''\<rparr>"

definition part_000 :: config where
  "part_000 = \<lparr>running = Unnamed_part_000, OWNER_WALLET = Some ''0xOWNER''\<rparr>"

text \<open>
  A network that reports the transaction count 7 and the same fees at every call, accepts
  every transaction, and has a receipt for exactly the hashes listed. Its state counts the
  transactions it accepted; the one accepted in state \<open>k\<close> gets the hash \<open>0xHASH\<close> followed by
  \<open>k\<close> quote marks.
\<close>

definition fees_1_10 :: feeData where
  "fees_1_10 = \<lparr>maxPriorityFeePerGas = Some 1, maxFeePerGas = Some 10\<rparr>"

definition test_net :: "handle list \<Rightarrow> nat network" where
  "test_net mined =
     \<lparr>getNonce = (\<lambda>k. (Inr 7, k)),
      getFeeData = (\<lambda>k. (Inr fees_1_10, k)),
      sendTransaction = (\<lambda>t k. (Inr (''0xHASH'' @ replicate k (CHR 0x27)), Suc k)),
      getTransactionReceipt =
        (\<lambda>h k. (Inr (if h \<in> set mined then Some (Receipt 100) else None), k))\<rparr>"

text \<open>The same network with a fee quote that lacks the priority component.\<close>

definition no_priority_net :: "nat network" where
  "no_priority_net =
     (test_net [])
       \<lparr>getFeeData := (\<lambda>k. (Inr \<lparr>maxPriorityFeePerGas = None, maxFeePerGas = Some 10\<rparr>, k))\<rparr>"

text \<open>The same network refusing every transaction.\<close>

definition rejecting_net :: "nat network" where
  "rejecting_net =
     (test_net [])
       \<lparr>sendTransaction := (\<lambda>t k. (Inl (Error ''insufficient funds''), k))\<rparr>"

text \<open>A registry with one entry, left from an earlier broadcast.\<close>

definition old_entry :: pending where
  "old_entry = \<lparr>pt_nonce = 3, pt_score = 42, pt_address = ''0xABC''\<rparr>"

definition one_pending :: server where
  "one_pending = init_server\<lparr>pendingTransactions := [(''0xOLD'', old_entry)]\<rparr>"

text \<open>
  A registry with two entries, and a network that has a receipt for every hash but rejects
  the query for the first of the two.
\<close>

definition two_pending :: server where
  "two_pending =
     init_server\<lparr>pendingTransactions := [(''0xFIRST'', old_entry), (''0xOLD'', old_entry)]\<rparr>"

definition rpc_down_net :: "nat network" where
  "rpc_down_net =
     (test_net [])
       \<lparr>getTransactionReceipt :=
          (\<lambda>h k. if h = ''0xFIRST'' then (Inl (Error ''rpc down''), k)
                 else (Inr (Some (Receipt 100)), k))\<rparr>"

text \<open>The console lines that \<^const>\<open>track_nonce\<close> writes.\<close>

fun is_nonce_log :: "console_line \<Rightarrow> bool" where
  "is_nonce_log (LogUsingNonce nonce score) = True"
| "is_nonce_log l = False"

section \<open>Facts about processTransaction\<close>

lemmas pt_defs =
  processTransaction_def processTransaction_try_def track_nonce_def record_sent_def
  log_def build_tx_def

lemmas ex_defs =
  init_server_def Server_js_def part_000_def test_net_def fees_1_10_def
  no_priority_net_def rejecting_net_def

lemmas retry_defs = retryPendingTransactions_def one_pending_def old_entry_def

text \<open>
  The scenario of the specification: score 42 from \<open>0xABC\<close>, sequence number 7, fee quote
  (1, 10), hash \<open>0xHASH\<close>.
\<close>

lemma scenario_success:
  "processTransaction Server_js (test_net []) 42 ''0xABC'' (init_server, 0) =
     (\<lparr>success = True, transactionHash = Some ''0xHASH'', error = None\<rparr>,
      \<lparr>pendingTransactions =
         [(''0xHASH'', \<lparr>pt_nonce = 7, pt_score = 42, pt_address = ''0xABC''\<rparr>)],
       usedNonces = {7},
       console = [LogUsingNonce 7 42, LogTransactionSent 42 ''0xHASH''],
       broadcasts =
         [\<lparr>tx_to = Some ''0xOWNER'', tx_value = 100000000000000, tx_gasLimit = 21000,
           tx_nonce = 7, tx_maxPriorityFeePerGas = Some 1, tx_maxFeePerGas = Some 10\<rparr>],
       watchers = [''0xHASH'']\<rparr>, Suc 0)"
  by (simp add: pt_defs ex_defs parseEther_0_0001_def)

lemma scenario_jump:
  "jump Server_js (test_net []) 42 ''0xABC'' (init_server, 0) =
     (\<lparr>res_success = True, res_message = Transaction_sent_successfully,
        res_transactionHash = Some ''0xHASH'', res_error = None,
        res_logs = Some [Log_Score 42, Log_Sender ''0xABC'', Log_Transaction_Hash ''0xHASH'',
                         Log_Status True]\<rparr>,
      \<lparr>pendingTransactions =
         [(''0xHASH'', \<lparr>pt_nonce = 7, pt_score = 42, pt_address = ''0xABC''\<rparr>)],
       usedNonces = {7},
       console = [LogProcessingJump 42 ''0xABC'', LogUsingNonce 7 42,
                  LogTransactionSent 42 ''0xHASH''],
       broadcasts =
         [\<lparr>tx_to = Some ''0xOWNER'', tx_value = 100000000000000, tx_gasLimit = 21000,
           tx_nonce = 7, tx_maxPriorityFeePerGas = Some 1, tx_maxFeePerGas = Some 10\<rparr>],
       watchers = [''0xHASH'']\<rparr>, Suc 0)"
  by (simp add: jump_def pt_defs ex_defs parseEther_0_0001_def)

text \<open>What a call does to the console and to the registry, whatever the network answers.\<close>

lemma processTransaction_console:
  assumes "processTransaction cfg net score address (s, n) = (r, s', n')"
  shows "count_list (console s') (LogResending h) = count_list (console s) (LogResending h)"
  using assms
  by (auto simp: pt_defs Let_def split: prod.splits sum.splits if_splits)

lemma processTransaction_registry:
  assumes "processTransaction cfg net score address (s, n) = (r, s', n')"
  shows "(\<not> success r \<and> pendingTransactions s' = pendingTransactions s) \<or>
         (\<exists>hash nonce. success r \<and> transactionHash r = Some hash \<and>
            pendingTransactions s' =
              AList.update hash \<lparr>pt_nonce = nonce, pt_score = score, pt_address = address\<rparr>
                (pendingTransactions s))"
  using assms
  by (fastforce simp: pt_defs Let_def split: prod.splits sum.splits if_splits)

text \<open>
  The keys of the registry stay pairwise distinct, as the keys of a \<^verbatim>\<open>Map\<close> are, and a call
  only ever adds a key at the end.
\<close>

lemma processTransaction_keys:
  assumes "processTransaction cfg net score address (s, n) = (r, s', n')"
  shows "\<exists>new. map fst (pendingTransactions s') = map fst (pendingTransactions s) @ new \<and>
           (distinct (map fst (pendingTransactions s)) \<longrightarrow>
              distinct (map fst (pendingTransactions s')))"
  using processTransaction_registry [OF assms]
  by (auto simp: update_keys)

lemma wait_settled_keys:
  "distinct (map fst (pendingTransactions s)) \<Longrightarrow>
   distinct (map fst (pendingTransactions (wait_settled hash outcome s)))"
  by (cases outcome) (simp_all add: wait_settled_def log_def Let_def distinct_delete)

text \<open>
  The three resumptions of a call, run one after the other with nothing in between, are
  \<^const>\<open>processTransaction\<close>.
\<close>

lemma processTransaction_resume:
  "(case resume cfg net (AwaitNonce score address) sn of
      (t1, sn1) \<Rightarrow> (case resume cfg net t1 sn1 of (t2, sn2) \<Rightarrow> resume cfg net t2 sn2)) =
   (case processTransaction cfg net score address sn of (r, sn') \<Rightarrow> (Returned r, sn'))"
  by (cases sn)
     (auto simp: pt_defs caught_def Let_def split: prod.splits sum.splits if_splits)

lemma resume_AwaitNonce_held:
  "held_nonce (fst (resume cfg net (AwaitNonce score address) (s, n))) =
     reply_nonce (fst (getNonce net n))"
  by (auto simp: caught_def split: prod.splits sum.splits)

lemma resume_AwaitNonce_net:
  "snd (snd (resume cfg net (AwaitNonce score address) (s, n))) = snd (getNonce net n)"
  by (auto simp: caught_def split: prod.splits sum.splits)

lemma run_first_awaits:
  "length pre = k \<Longrightarrow>
   \<exists>ts' s' n'. run_schedule cfg net [k..<k + length calls] (pre @ map start_call calls, s, n) =
                  (pre @ ts', s', n') \<and>
                map held_nonce ts' = map reply_nonce (nonce_replies net (length calls) n)"
proof (induction calls arbitrary: pre k s n)
  case Nil
  then show ?case by simp
next
  case (Cons c cs)
  obtain t1 s1 n1 where r: "resume cfg net (AwaitNonce (fst c) (snd c)) (s, n) = (t1, s1, n1)"
    by (cases "resume cfg net (AwaitNonce (fst c) (snd c)) (s, n)")
  have h: "held_nonce t1 = reply_nonce (fst (getNonce net n))"
    using resume_AwaitNonce_held [of cfg net "fst c" "snd c" s n] r by simp
  have m: "n1 = snd (getNonce net n)"
    using resume_AwaitNonce_net [of cfg net "fst c" "snd c" s n] r by simp
  from Cons.prems have len: "length (pre @ [t1]) = Suc k"
    by simp
  from Cons.IH [OF len, of s1 n1] obtain ts' s' n' where
    run: "run_schedule cfg net [Suc k..<Suc k + length cs]
            ((pre @ [t1]) @ map start_call cs, s1, n1) = ((pre @ [t1]) @ ts', s', n')"
    and held: "map held_nonce ts' = map reply_nonce (nonce_replies net (length cs) n1)"
    by blast
  have upt: "[k..<k + length (c # cs)] = k # [Suc k..<Suc k + length cs]"
    by (simp add: upt_rec)
  have nth: "(pre @ map start_call (c # cs)) ! k = AwaitNonce (fst c) (snd c)"
    using Cons.prems by (simp add: nth_append start_call_def)
  have upd: "(pre @ map start_call (c # cs))[k := t1] = (pre @ [t1]) @ map start_call cs"
    using Cons.prems by (simp add: list_update_append)
  have "run_schedule cfg net [k..<k + length (c # cs)] (pre @ map start_call (c # cs), s, n) =
          (pre @ (t1 # ts'), s', n')"
    using Cons.prems run r nth upd unfolding upt by simp
  moreover have "map held_nonce (t1 # ts') =
                   map reply_nonce (nonce_replies net (length (c # cs)) n)"
    using h held m by (simp split: prod.splits)
  ultimately show ?case by blast
qed

section \<open>Facts about the loop of retryPendingTransactions\<close>

lemma removeAll_nth_distinct:
  "distinct ks \<Longrightarrow> i < length ks \<Longrightarrow> removeAll (ks ! i) ks = take i ks @ drop (Suc i) ks"
proof (induction ks arbitrary: i)
  case Nil
  then show ?case by simp
next
  case (Cons k ks)
  show ?case
  proof (cases i)
    case 0
    with Cons.prems show ?thesis by simp
  next
    case (Suc j)
    with Cons.prems have "ks ! j \<noteq> k" by auto
    with Cons Suc show ?thesis by simp
  qed
qed

lemma nth_notin_take:
  "distinct ks \<Longrightarrow> i < length ks \<Longrightarrow> ks ! i \<notin> set (take i ks)"
  by (auto simp: in_set_conv_nth nth_eq_iff_index_eq)

lemma retry_complete_cases:
  assumes "retryPendingTransactions fuel cfg net (s, n) = Some (Inr (), s', n')"
  obtains fp s1 where
    "retry_loop fuel cfg net 0 False (log LogChecking s, n) = Some (Inr fp, s1, n')"
    and "s' = (if \<not> fp then log LogNoPending s1 else s1)"
  using assms
  by (auto simp: retryPendingTransactions_def split: option.splits prod.splits sum.splits)

text \<open>
  A handle for which the network has a receipt whenever it is asked is never among the
  entries behind the iterator, and the loop never resends it.
\<close>

lemma loop_removed:
  assumes R: "\<forall>m. \<exists>rc m'. getTransactionReceipt net h m = (Inr (Some rc), m')"
  shows "retry_loop fuel cfg net i fp (s, n) = Some (Inr fp', s', n') \<Longrightarrow>
         distinct (map fst (pendingTransactions s)) \<Longrightarrow>
         h \<notin> set (take i (map fst (pendingTransactions s))) \<Longrightarrow>
         h \<notin> fst ` set (pendingTransactions s') \<and>
         count_list (console s') (LogResending h) = count_list (console s) (LogResending h)"
proof (induction fuel arbitrary: i fp s n)
  case 0
  then show ?case by simp
next
  case (Suc fuel)
  let ?reg = "pendingTransactions s"
  show ?case
  proof (cases "length ?reg \<le> i")
    case True
    with Suc.prems show ?thesis by auto
  next
    case False
    then have i: "i < length ?reg" by simp
    let ?k = "fst (?reg ! i)"
    let ?d = "snd (?reg ! i)"
    have ki: "?k = map fst ?reg ! i" using i by simp
    obtain a n1 where q: "getTransactionReceipt net ?k n = (a, n1)"
      by (cases "getTransactionReceipt net ?k n")
    show ?thesis
    proof (cases a)
      case (Inl e)
      with Suc.prems(1) False q show ?thesis by (simp add: Let_def)
    next
      case (Inr ro)
      show ?thesis
      proof (cases ro)
        case None
        from R obtain rc0 m0 where "getTransactionReceipt net h n = (Inr (Some rc0), m0)"
          by blast
        with q Inr None have kh: "?k \<noteq> h" by auto
        obtain r s2 n2 where
          p: "processTransaction cfg net (pt_score ?d) (pt_address ?d)
                (log (LogResending ?k) s, n1) = (r, s2, n2)"
          by (cases "processTransaction cfg net (pt_score ?d) (pt_address ?d)
                       (log (LogResending ?k) s, n1)")
        from processTransaction_keys [OF p] obtain new where
          keys: "map fst (pendingTransactions s2) = map fst ?reg @ new"
          and d2: "distinct (map fst (pendingTransactions s2))"
          using Suc.prems(2) by (auto simp: log_def)
        have t: "take (Suc i) (map fst (pendingTransactions s2)) = take i (map fst ?reg) @ [?k]"
          using keys i ki by (simp add: take_Suc_conv_app_nth)
        have rec: "retry_loop fuel cfg net (Suc i) True (s2, n2) = Some (Inr fp', s', n')"
          using Suc.prems(1) False q Inr None p by (simp add: Let_def)
        have "h \<notin> set (take (Suc i) (map fst (pendingTransactions s2)))"
          using t kh Suc.prems(3) by simp
        from Suc.IH [OF rec d2 this] processTransaction_console [OF p, of h] kh
        show ?thesis by (simp add: log_def)
      next
        case (Some rc)
        let ?s1 = "(log (LogAlreadyConfirmed ?k) s)
                     \<lparr>pendingTransactions := AList.delete ?k ?reg\<rparr>"
        have rec: "retry_loop fuel cfg net i fp (?s1, n1) = Some (Inr fp', s', n')"
          using Suc.prems(1) False q Inr Some by (simp add: Let_def)
        have keys: "map fst (pendingTransactions ?s1) =
                      take i (map fst ?reg) @ drop (Suc i) (map fst ?reg)"
          using removeAll_nth_distinct [OF Suc.prems(2), of i] i
          by (simp add: log_def delete_keys)
        have d1: "distinct (map fst (pendingTransactions ?s1))"
          using Suc.prems(2) by (simp add: log_def distinct_delete)
        have "h \<notin> set (take i (map fst (pendingTransactions ?s1)))"
          using keys i Suc.prems(3) by simp
        from Suc.IH [OF rec d1 this] show ?thesis by (simp add: log_def)
      qed
    qed
  qed
qed

text \<open>
  A handle for which the network has no receipt whenever it is asked stays in the registry,
  and the loop resends it once: when the iterator reaches it.
\<close>

lemma loop_kept:
  assumes NR: "\<forall>m. \<exists>m'. getTransactionReceipt net h m = (Inr None, m')"
  shows "retry_loop fuel cfg net i fp (s, n) = Some (Inr fp', s', n') \<Longrightarrow>
         distinct (map fst (pendingTransactions s)) \<Longrightarrow>
         h \<in> fst ` set (pendingTransactions s) \<Longrightarrow>
         h \<in> fst ` set (pendingTransactions s') \<and>
         count_list (console s') (LogResending h) =
           count_list (console s) (LogResending h) +
             (if h \<in> set (take i (map fst (pendingTransactions s))) then 0 else 1)"
proof (induction fuel arbitrary: i fp s n)
  case 0
  then show ?case by simp
next
  case (Suc fuel)
  let ?reg = "pendingTransactions s"
  show ?case
  proof (cases "length ?reg \<le> i")
    case True
    with Suc.prems show ?thesis by auto
  next
    case False
    then have i: "i < length ?reg" by simp
    let ?k = "fst (?reg ! i)"
    let ?d = "snd (?reg ! i)"
    have ki: "?k = map fst ?reg ! i" using i by simp
    obtain a n1 where q: "getTransactionReceipt net ?k n = (a, n1)"
      by (cases "getTransactionReceipt net ?k n")
    show ?thesis
    proof (cases a)
      case (Inl e)
      with Suc.prems(1) False q show ?thesis by (simp add: Let_def)
    next
      case (Inr ro)
      show ?thesis
      proof (cases ro)
        case None
        obtain r s2 n2 where
          p: "processTransaction cfg net (pt_score ?d) (pt_address ?d)
                (log (LogResending ?k) s, n1) = (r, s2, n2)"
          by (cases "processTransaction cfg net (pt_score ?d) (pt_address ?d)
                       (log (LogResending ?k) s, n1)")
        from processTransaction_keys [OF p] obtain new where
          keys: "map fst (pendingTransactions s2) = map fst ?reg @ new"
          and d2: "distinct (map fst (pendingTransactions s2))"
          using Suc.prems(2) by (auto simp: log_def)
        have t: "take (Suc i) (map fst (pendingTransactions s2)) = take i (map fst ?reg) @ [?k]"
          using keys i ki by (simp add: take_Suc_conv_app_nth)
        have rec: "retry_loop fuel cfg net (Suc i) True (s2, n2) = Some (Inr fp', s', n')"
          using Suc.prems(1) False q Inr None p by (simp add: Let_def)
        have "set (map fst (pendingTransactions s2)) = set (map fst ?reg) \<union> set new"
          using keys by simp
        with Suc.prems(3) have in2: "h \<in> fst ` set (pendingTransactions s2)"
          by auto
        have notin: "?k \<notin> set (take i (map fst ?reg))"
          using nth_notin_take [OF Suc.prems(2), of i] i by simp
        from Suc.IH [OF rec d2 in2] processTransaction_console [OF p, of h] t notin
        show ?thesis by (auto simp: log_def)
      next
        case (Some rc)
        from NR obtain m0 where "getTransactionReceipt net h n = (Inr None, m0)"
          by blast
        with q Inr Some have kh: "?k \<noteq> h" by auto
        let ?s1 = "(log (LogAlreadyConfirmed ?k) s)
                     \<lparr>pendingTransactions := AList.delete ?k ?reg\<rparr>"
        have rec: "retry_loop fuel cfg net i fp (?s1, n1) = Some (Inr fp', s', n')"
          using Suc.prems(1) False q Inr Some by (simp add: Let_def)
        have keys: "map fst (pendingTransactions ?s1) =
                      take i (map fst ?reg) @ drop (Suc i) (map fst ?reg)"
          using removeAll_nth_distinct [OF Suc.prems(2), of i] i
          by (simp add: log_def delete_keys)
        have d1: "distinct (map fst (pendingTransactions ?s1))"
          using Suc.prems(2) by (simp add: log_def distinct_delete)
        have "set (map fst (pendingTransactions ?s1)) = set (map fst ?reg) - {?k}"
          by (simp add: log_def delete_keys)
        with Suc.prems(3) kh have in1: "h \<in> fst ` set (pendingTransactions ?s1)"
          by auto
        have "take i (map fst (pendingTransactions ?s1)) = take i (map fst ?reg)"
          using keys i by simp
        with Suc.IH [OF rec d1 in1] show ?thesis by (simp add: log_def)
      qed
    qed
  qed
qed

text \<open>
  Two passes over a registry with one entry. In the first the network has no receipt for
  the old hash and has one for the hash of the resend; in the second it has a receipt for
  the old hash.
\<close>

lemma pass_resend_then_confirmed:
  "retryPendingTransactions (Suc (Suc (Suc 0))) Server_js (test_net [''0xHASH''])
     (one_pending, 0) =
     Some (Inr (),
       \<lparr>pendingTransactions = [(''0xOLD'', old_entry)],
        usedNonces = {7},
        console = [LogChecking, LogResending ''0xOLD'', LogUsingNonce 7 42,
                   LogTransactionSent 42 ''0xHASH'', LogAlreadyConfirmed ''0xHASH''],
        broadcasts =
          [\<lparr>tx_to = Some ''0xOWNER'', tx_value = 100000000000000, tx_gasLimit = 21000,
            tx_nonce = 7, tx_maxPriorityFeePerGas = Some 1, tx_maxFeePerGas = Some 10\<rparr>],
        watchers = [''0xHASH'']\<rparr>, Suc 0)"
  by (simp add: retry_defs pt_defs ex_defs parseEther_0_0001_def Let_def)

lemma pass_confirmed:
  "retryPendingTransactions (Suc (Suc 0)) Server_js (test_net [''0xOLD'']) (one_pending, 0) =
     Some (Inr (),
       \<lparr>pendingTransactions = [],
        usedNonces = {},
        console = [LogChecking, LogAlreadyConfirmed ''0xOLD'', LogNoPending],
        broadcasts = [],
        watchers = []\<rparr>, 0)"
  by (simp add: retry_defs pt_defs ex_defs Let_def)

text \<open>
  The loop need not end. With a network that accepts every transaction and never has a
  receipt, every visit adds an entry behind the iterator, and no bound on the number of
  visits is enough for the pass over a registry with one entry.
\<close>

lemma test_net_accepts:
  "\<exists>s'. processTransaction cfg (test_net mined) score address (s, k) =
          (\<lparr>success = True, transactionHash = Some (''0xHASH'' @ replicate k (CHR 0x27)),
             error = None\<rparr>, s', Suc k) \<and>
        pendingTransactions s' =
          AList.update (''0xHASH'' @ replicate k (CHR 0x27))
            \<lparr>pt_nonce = 7, pt_score = score, pt_address = address\<rparr> (pendingTransactions s)"
  by (simp add: pt_defs test_net_def fees_1_10_def Let_def)

lemma loop_without_receipts:
  "i < length (pendingTransactions s) \<Longrightarrow>
   \<forall>key \<in> set (map fst (pendingTransactions s)).
      key = ''0xOLD'' \<or> (\<exists>j<k. key = ''0xHASH'' @ replicate j (CHR 0x27)) \<Longrightarrow>
   retry_loop fuel cfg (test_net []) i fp (s, k) = None"
proof (induction fuel arbitrary: i fp s k)
  case 0
  then show ?case by simp
next
  case (Suc fuel)
  let ?reg = "pendingTransactions s"
  let ?h = "fst (?reg ! i)"
  let ?d = "snd (?reg ! i)"
  let ?new = "''0xHASH'' @ replicate k (CHR 0x27)"
  from test_net_accepts [of cfg "[]" "pt_score ?d" "pt_address ?d" "log (LogResending ?h) s" k]
  obtain s2 where
    p: "processTransaction cfg (test_net []) (pt_score ?d) (pt_address ?d)
          (log (LogResending ?h) s, k) =
        (\<lparr>success = True, transactionHash = Some ?new, error = None\<rparr>, s2, Suc k)"
    and reg2: "pendingTransactions s2 =
                 AList.update ?new
                   \<lparr>pt_nonce = 7, pt_score = pt_score ?d, pt_address = pt_address ?d\<rparr> ?reg"
    by (auto simp: log_def)
  have fresh: "?new \<notin> set (map fst ?reg)"
  proof
    assume "?new \<in> set (map fst ?reg)"
    with Suc.prems(2)
    have "?new = ''0xOLD'' \<or> (\<exists>j<k. ?new = ''0xHASH'' @ replicate j (CHR 0x27))"
      by blast
    then show False
    proof
      assume "?new = ''0xOLD''"
      then show False by simp
    next
      assume "\<exists>j<k. ?new = ''0xHASH'' @ replicate j (CHR 0x27)"
      then obtain j where "j < k" and "replicate k (CHR 0x27) = replicate j (CHR 0x27)"
        by auto
      then have "length (replicate k (CHR 0x27)) = length (replicate j (CHR 0x27))"
        by simp
      with \<open>j < k\<close> show False by simp
    qed
  qed
  have keys2: "map fst (pendingTransactions s2) = map fst ?reg @ [?new]"
    using reg2 fresh by (simp add: update_keys)
  then have "length (map fst (pendingTransactions s2)) = Suc (length ?reg)"
    by simp
  with Suc.prems(1) have i2: "Suc i < length (pendingTransactions s2)"
    by simp
  have inv2: "\<forall>key \<in> set (map fst (pendingTransactions s2)).
                key = ''0xOLD'' \<or> (\<exists>j<Suc k. key = ''0xHASH'' @ replicate j (CHR 0x27))"
    unfolding keys2 using Suc.prems(2) less_Suc_eq by auto
  have "retry_loop (Suc fuel) cfg (test_net []) i fp (s, k) =
          retry_loop fuel cfg (test_net []) (Suc i) True (s2, Suc k)"
    using Suc.prems(1) p by (simp add: Let_def test_net_def)
  with Suc.IH [OF i2 inv2] show ?case by simp
qed

lemma pass_need_not_end:
  "retryPendingTransactions fuel cfg (test_net []) (one_pending, 0) = None"
  using loop_without_receipts [of 0 "log LogChecking one_pending" 0 fuel cfg False]
  by (simp add: retryPendingTransactions_def one_pending_def init_server_def log_def)

text \<open>
  The loop with a bound and the loop turn by turn are the same loop: the bound is the number of
  turns, and the loop has returned when the pass has ended or was aborted.
\<close>

lemma retry_visit_stopped:
  "fst st \<noteq> Running \<Longrightarrow> (retry_visit cfg net ^^ k) st = st"
proof (induction k)
  case 0
  then show ?case by simp
next
  case (Suc k)
  then show ?case by (cases st; cases "fst st") auto
qed

lemma retry_loop_turns:
  "retry_loop fuel cfg net i fp (s, n) =
     (case (retry_visit cfg net ^^ fuel) (Running, i, fp, s, n) of
        (Running, c) \<Rightarrow> None
      | (Ended, i', fp', s', n') \<Rightarrow> Some (Inr fp', s', n')
      | (Aborted e, i', fp', s', n') \<Rightarrow> Some (Inl e, s', n'))"
proof (induction fuel arbitrary: i fp s n)
  case 0
  then show ?case by simp
next
  case (Suc fuel)
  have stop: "\<And>st. fst st \<noteq> Running \<Longrightarrow> (retry_visit cfg net ^^ fuel) st = st"
    by (rule retry_visit_stopped)
  show ?case
    unfolding funpow_Suc_right o_apply
    by (auto simp: Suc.IH Let_def stop split: prod.splits sum.splits option.splits)
qed

lemma retryPendingTransactions_turns:
  "retryPendingTransactions fuel cfg net (s, n) =
     (case pass_turns fuel cfg net (s, n) of
        (Running, c) \<Rightarrow> None
      | (Ended, i, fp, s', n') \<Rightarrow>
          Some (Inr (), if \<not> fp then log LogNoPending s' else s', n')
      | (Aborted e, i, fp, s', n') \<Rightarrow> Some (Inl e, s', n'))"
  by (simp add: retryPendingTransactions_def pass_turns_def retry_loop_turns
           split: prod.splits pass_status.splits)

lemma pass_turns_start:
  "pass_turns k cfg net (s, n) =
     (retry_visit cfg net ^^ k) (Running, 0, False, log LogChecking s, n)"
  by (simp add: pass_turns_def)

text \<open>What one turn does, case by case.\<close>

lemma retry_visit_cases:
  fixes s :: server
  assumes "i < length (pendingTransactions s)"
  obtains
    (aborted) e n1 where
      "getTransactionReceipt net (fst (pendingTransactions s ! i)) n = (Inl e, n1)"
      "retry_visit cfg net (Running, i, fp, s, n) = (Aborted e, i, fp, s, n1)"
  | (resent) n1 r s2 n2 where
      "getTransactionReceipt net (fst (pendingTransactions s ! i)) n = (Inr None, n1)"
      "processTransaction cfg net (pt_score (snd (pendingTransactions s ! i)))
         (pt_address (snd (pendingTransactions s ! i)))
         (log (LogResending (fst (pendingTransactions s ! i))) s, n1) = (r, s2, n2)"
      "retry_visit cfg net (Running, i, fp, s, n) = (Running, Suc i, True, s2, n2)"
  | (confirmed) rc n1 where
      "getTransactionReceipt net (fst (pendingTransactions s ! i)) n = (Inr (Some rc), n1)"
      "retry_visit cfg net (Running, i, fp, s, n) =
         (Running, i, fp,
          (log (LogAlreadyConfirmed (fst (pendingTransactions s ! i))) s)
            \<lparr>pendingTransactions :=
               AList.delete (fst (pendingTransactions s ! i)) (pendingTransactions s)\<rparr>, n1)"
proof -
  obtain a n1 where q: "getTransactionReceipt net (fst (pendingTransactions s ! i)) n = (a, n1)"
    by (cases "getTransactionReceipt net (fst (pendingTransactions s ! i)) n")
  show thesis
  proof (cases a)
    case (Inl e)
    with q assms show thesis by (intro aborted [of e n1]) (simp_all add: Let_def)
  next
    case (Inr ro)
    show thesis
    proof (cases ro)
      case None
      obtain r s2 n2 where
        p: "processTransaction cfg net (pt_score (snd (pendingTransactions s ! i)))
              (pt_address (snd (pendingTransactions s ! i)))
              (log (LogResending (fst (pendingTransactions s ! i))) s, n1) = (r, s2, n2)"
        by (cases "processTransaction cfg net (pt_score (snd (pendingTransactions s ! i)))
              (pt_address (snd (pendingTransactions s ! i)))
              (log (LogResending (fst (pendingTransactions s ! i))) s, n1)")
      with q Inr None assms show thesis
        by (intro resent [of n1 r s2 n2]) (simp_all add: Let_def)
    next
      case (Some rc)
      with q Inr assms show thesis
        by (intro confirmed [of rc n1]) (simp_all add: Let_def)
    qed
  qed
qed

lemma delete_nth_keys:
  assumes "distinct (map fst reg)" and "i < length reg"
  shows "map fst (AList.delete (fst (reg ! i)) reg) =
           take i (map fst reg) @ drop (Suc i) (map fst reg)"
  using removeAll_nth_distinct [OF assms(1), of i] assms(2) by (simp add: delete_keys)

text \<open>
  One turn keeps what is known of a handle that never has a receipt, and of one that always
  has one.
\<close>

lemma visit_kept:
  assumes NR: "\<forall>m. \<exists>m'. getTransactionReceipt net h m = (Inr None, m')"
    and d: "distinct (map fst (pendingTransactions s))"
    and hin: "h \<in> set (map fst (pendingTransactions s))"
    and cnt: "resends h s =
                c0 + (if h \<in> set (take i (map fst (pendingTransactions s))) then 1 else 0)"
    and v: "retry_visit cfg net (c, i, fp, s, n) = (c', i', fp', s', n')"
  shows "distinct (map fst (pendingTransactions s')) \<and>
         h \<in> set (map fst (pendingTransactions s')) \<and>
         resends h s' =
           c0 + (if h \<in> set (take i' (map fst (pendingTransactions s'))) then 1 else 0) \<and>
         (h \<in> set (take i (map fst (pendingTransactions s))) \<longrightarrow>
            h \<in> set (take i' (map fst (pendingTransactions s'))))"
proof (cases "c = Running \<and> i < length (pendingTransactions s)")
  case False
  then have "s' = s \<and> i' = i"
    using v by (cases c) (auto split: if_splits)
  with d hin cnt show ?thesis by simp
next
  case True
  let ?reg = "pendingTransactions s"
  let ?k = "fst (?reg ! i)"
  from True have i: "i < length ?reg" and c: "c = Running" by simp_all
  have ki: "?k = map fst ?reg ! i" using i by simp
  have notin: "?k \<notin> set (take i (map fst ?reg))"
    using nth_notin_take [OF d, of i] i by simp
  from i show ?thesis
  proof (cases rule: retry_visit_cases [where net = net and n = n and cfg = cfg and fp = fp])
    case (aborted e n1)
    with v c have "s' = s \<and> i' = i"
      by (simp del: retry_visit.simps)
    with d hin cnt show ?thesis by simp
  next
    case (resent n1 r s2 n2)
    with v c have eq: "s' = s2" "i' = Suc i"
      by (simp_all del: retry_visit.simps)
    from processTransaction_keys [OF resent(2)] obtain new where
      keys: "map fst (pendingTransactions s2) = map fst ?reg @ new"
      and d2: "distinct (map fst (pendingTransactions s2))"
      using d by (auto simp: log_def)
    have t: "take (Suc i) (map fst (pendingTransactions s2)) = take i (map fst ?reg) @ [?k]"
      using keys i ki by (simp add: take_Suc_conv_app_nth)
    have in2: "h \<in> set (map fst (pendingTransactions s2))"
      using keys hin by simp
    have "resends h s2 = resends h s + (if ?k = h then 1 else 0)"
      using processTransaction_console [OF resent(2), of h] by (simp add: resends_def log_def)
    with cnt t notin d2 in2 show ?thesis unfolding eq by auto
  next
    case (confirmed rc n1)
    from NR obtain m0 where "getTransactionReceipt net h n = (Inr None, m0)" by blast
    with confirmed(1) have kh: "?k \<noteq> h" by auto
    let ?s1 = "(log (LogAlreadyConfirmed ?k) s)\<lparr>pendingTransactions := AList.delete ?k ?reg\<rparr>"
    from confirmed(2) v c have "(c', i', fp', s', n') = (Running, i, fp, ?s1, n1)"
      by metis
    then have eq: "s' = ?s1" "i' = i"
      by blast+
    have keys: "map fst (pendingTransactions ?s1) =
                  take i (map fst ?reg) @ drop (Suc i) (map fst ?reg)"
      using delete_nth_keys [OF d i] by (simp add: log_def)
    have d1: "distinct (map fst (pendingTransactions ?s1))"
      using d by (simp add: log_def distinct_delete)
    have "set (map fst (pendingTransactions ?s1)) = set (map fst ?reg) - {?k}"
      by (simp add: log_def delete_keys)
    with hin kh have in1: "h \<in> set (map fst (pendingTransactions ?s1))" by auto
    have tk: "take i (map fst (pendingTransactions ?s1)) = take i (map fst ?reg)"
      using keys i by simp
    have "resends h ?s1 = resends h s"
      by (simp add: resends_def log_def)
    with cnt d1 in1 tk show ?thesis unfolding eq by simp
  qed
qed

lemma visit_removed:
  assumes R: "\<forall>m. \<exists>rc m'. getTransactionReceipt net h m = (Inr (Some rc), m')"
    and d: "distinct (map fst (pendingTransactions s))"
    and hout: "h \<notin> set (take i (map fst (pendingTransactions s)))"
    and cnt: "resends h s = c0"
    and v: "retry_visit cfg net (c, i, fp, s, n) = (c', i', fp', s', n')"
  shows "distinct (map fst (pendingTransactions s')) \<and>
         h \<notin> set (take i' (map fst (pendingTransactions s'))) \<and>
         resends h s' = c0"
proof (cases "c = Running \<and> i < length (pendingTransactions s)")
  case False
  then have "s' = s \<and> i' = i"
    using v by (cases c) (auto split: if_splits)
  with d hout cnt show ?thesis by simp
next
  case True
  let ?reg = "pendingTransactions s"
  let ?k = "fst (?reg ! i)"
  from True have i: "i < length ?reg" and c: "c = Running" by simp_all
  have ki: "?k = map fst ?reg ! i" using i by simp
  from i show ?thesis
  proof (cases rule: retry_visit_cases [where net = net and n = n and cfg = cfg and fp = fp])
    case (aborted e n1)
    with v c have "s' = s \<and> i' = i"
      by (simp del: retry_visit.simps)
    with d hout cnt show ?thesis by simp
  next
    case (resent n1 r s2 n2)
    from R obtain rc0 m0 where "getTransactionReceipt net h n = (Inr (Some rc0), m0)" by blast
    with resent(1) have kh: "?k \<noteq> h" by auto
    from resent(3) v c have eq: "s' = s2" "i' = Suc i"
      by (simp_all del: retry_visit.simps)
    from processTransaction_keys [OF resent(2)] obtain new where
      keys: "map fst (pendingTransactions s2) = map fst ?reg @ new"
      and d2: "distinct (map fst (pendingTransactions s2))"
      using d by (auto simp: log_def)
    have t: "take (Suc i) (map fst (pendingTransactions s2)) = take i (map fst ?reg) @ [?k]"
      using keys i ki by (simp add: take_Suc_conv_app_nth)
    have "resends h s2 = resends h s"
      using processTransaction_console [OF resent(2), of h] kh
      by (simp add: resends_def log_def)
    with cnt t kh hout d2 show ?thesis unfolding eq by simp
  next
    case (confirmed rc n1)
    let ?s1 = "(log (LogAlreadyConfirmed ?k) s)\<lparr>pendingTransactions := AList.delete ?k ?reg\<rparr>"
    from confirmed(2) v c have "(c', i', fp', s', n') = (Running, i, fp, ?s1, n1)"
      by metis
    then have eq: "s' = ?s1" "i' = i"
      by blast+
    have keys: "map fst (pendingTransactions ?s1) =
                  take i (map fst ?reg) @ drop (Suc i) (map fst ?reg)"
      using delete_nth_keys [OF d i] by (simp add: log_def)
    have d1: "distinct (map fst (pendingTransactions ?s1))"
      using d by (simp add: log_def distinct_delete)
    have tk: "take i (map fst (pendingTransactions ?s1)) = take i (map fst ?reg)"
      using keys i by simp
    have "resends h ?s1 = resends h s"
      by (simp add: resends_def log_def)
    with cnt d1 tk hout show ?thesis unfolding eq by simp
  qed
qed

lemma turns_add:
  "(retry_visit cfg net ^^ (k + m)) st = (retry_visit cfg net ^^ m) ((retry_visit cfg net ^^ k) st)"
  by (subst add.commute) (simp add: funpow_add)

lemma turns_kept:
  assumes NR: "\<forall>m. \<exists>m'. getTransactionReceipt net h m = (Inr None, m')"
    and d: "distinct (map fst (pendingTransactions s))"
    and hin: "h \<in> set (map fst (pendingTransactions s))"
    and cnt: "resends h s =
                c0 + (if h \<in> set (take i (map fst (pendingTransactions s))) then 1 else 0)"
  shows "(retry_visit cfg net ^^ k) (c, i, fp, s, n) = (c', i', fp', s', n') \<Longrightarrow>
         distinct (map fst (pendingTransactions s')) \<and>
         h \<in> set (map fst (pendingTransactions s')) \<and>
         resends h s' =
           c0 + (if h \<in> set (take i' (map fst (pendingTransactions s'))) then 1 else 0) \<and>
         (h \<in> set (take i (map fst (pendingTransactions s))) \<longrightarrow>
            h \<in> set (take i' (map fst (pendingTransactions s'))))"
proof (induction k arbitrary: c' i' fp' s' n')
  case 0
  with d hin cnt show ?case by simp
next
  case (Suc k)
  obtain c1 i1 fp1 s1 n1 where
    mid: "(retry_visit cfg net ^^ k) (c, i, fp, s, n) = (c1, i1, fp1, s1, n1)"
    by (metis prod_cases5)
  with Suc.prems have v: "retry_visit cfg net (c1, i1, fp1, s1, n1) = (c', i', fp', s', n')"
    by simp
  from Suc.IH [OF mid] visit_kept [OF NR _ _ _ v, of c0]
  show ?case by blast
qed

lemma turns_removed:
  assumes R: "\<forall>m. \<exists>rc m'. getTransactionReceipt net h m = (Inr (Some rc), m')"
    and d: "distinct (map fst (pendingTransactions s))"
    and hout: "h \<notin> set (take i (map fst (pendingTransactions s)))"
    and cnt: "resends h s = c0"
  shows "(retry_visit cfg net ^^ k) (c, i, fp, s, n) = (c', i', fp', s', n') \<Longrightarrow>
         distinct (map fst (pendingTransactions s')) \<and>
         h \<notin> set (take i' (map fst (pendingTransactions s'))) \<and>
         resends h s' = c0"
proof (induction k arbitrary: c' i' fp' s' n')
  case 0
  with d hout cnt show ?case by simp
next
  case (Suc k)
  obtain c1 i1 fp1 s1 n1 where
    mid: "(retry_visit cfg net ^^ k) (c, i, fp, s, n) = (c1, i1, fp1, s1, n1)"
    by (metis prod_cases5)
  with Suc.prems have v: "retry_visit cfg net (c1, i1, fp1, s1, n1) = (c', i', fp', s', n')"
    by simp
  from Suc.IH [OF mid] visit_removed [OF R _ _ _ v, of c0]
  show ?case by blast
qed

text \<open>
  The iterator gets to the entry \<open>j\<close> places ahead of it in \<open>j\<close> turns, and deals with it in
  the next, unless a receipt query is rejected on the way.
\<close>

lemma reach_kept:
  assumes NR: "\<forall>m. \<exists>m'. getTransactionReceipt net h m = (Inr None, m')"
  shows "distinct (map fst (pendingTransactions s)) \<Longrightarrow>
         i + j < length (pendingTransactions s) \<Longrightarrow>
         fst (pendingTransactions s ! (i + j)) = h \<Longrightarrow>
         (retry_visit cfg net ^^ Suc j) (Running, i, fp, s, n) = (c', i', fp', s', n') \<Longrightarrow>
         (\<exists>e. c' = Aborted e) \<or>
         (c' = Running \<and> h \<in> set (take i' (map fst (pendingTransactions s'))))"
proof (induction j arbitrary: i fp s n)
  case 0
  let ?reg = "pendingTransactions s"
  from 0 have i: "i < length ?reg" and k: "fst (?reg ! i) = h" by simp_all
  from 0 have v: "retry_visit cfg net (Running, i, fp, s, n) = (c', i', fp', s', n')"
    by (simp del: retry_visit.simps)
  from i show ?case
  proof (cases rule: retry_visit_cases [where net = net and n = n and cfg = cfg and fp = fp])
    case (aborted e n1)
    with v show ?thesis by (auto simp del: retry_visit.simps)
  next
    case (resent n1 r s2 n2)
    with v have eq: "c' = Running" "i' = Suc i" "s' = s2"
      by (simp_all del: retry_visit.simps)
    from processTransaction_keys [OF resent(2)] obtain new where
      keys: "map fst (pendingTransactions s2) = map fst ?reg @ new"
      by (auto simp: log_def)
    have "take (Suc i) (map fst (pendingTransactions s2)) = take i (map fst ?reg) @ [h]"
      using keys i k by (simp add: take_Suc_conv_app_nth)
    then show ?thesis unfolding eq by simp
  next
    case (confirmed rc n1)
    from NR obtain m0 where "getTransactionReceipt net h n = (Inr None, m0)" by blast
    with confirmed(1) k show ?thesis by simp
  qed
next
  case (Suc j)
  let ?reg = "pendingTransactions s"
  from Suc.prems have i: "i < length ?reg" by simp
  from Suc.prems(4) have run:
    "(retry_visit cfg net ^^ Suc j) (retry_visit cfg net (Running, i, fp, s, n)) =
       (c', i', fp', s', n')"
    by (simp only: funpow_Suc_right o_apply)
  from i show ?case
  proof (cases rule: retry_visit_cases [where net = net and n = n and cfg = cfg and fp = fp])
    case (aborted e n1)
    have "(retry_visit cfg net ^^ Suc j) (Aborted e, i, fp, s, n1) = (Aborted e, i, fp, s, n1)"
      by (rule retry_visit_stopped) simp
    with run aborted(2) have "(c', i', fp', s', n') = (Aborted e, i, fp, s, n1)"
      by metis
    then show ?thesis by blast
  next
    case (resent n1 r s2 n2)
    from processTransaction_keys [OF resent(2)] obtain new where
      keys: "map fst (pendingTransactions s2) = map fst ?reg @ new"
      and d2: "distinct (map fst (pendingTransactions s2))"
      using Suc.prems(1) by (auto simp: log_def)
    have len: "length (pendingTransactions s2) = length ?reg + length new"
      using keys by (metis length_append length_map)
    then have l2: "Suc i + j < length (pendingTransactions s2)"
      using Suc.prems(2) by simp
    have "map fst (pendingTransactions s2) ! (Suc i + j) = map fst ?reg ! (Suc i + j)"
      using keys Suc.prems(2) by (simp add: nth_append)
    with l2 Suc.prems(2,3) have k2: "fst (pendingTransactions s2 ! (Suc i + j)) = h"
      by simp
    from run resent(3) have
      "(retry_visit cfg net ^^ Suc j) (Running, Suc i, True, s2, n2) = (c', i', fp', s', n')"
      by metis
    from Suc.IH [OF d2 l2 k2 this] show ?thesis .
  next
    case (confirmed rc n1)
    let ?k = "fst (?reg ! i)"
    let ?s1 = "(log (LogAlreadyConfirmed ?k) s)\<lparr>pendingTransactions := AList.delete ?k ?reg\<rparr>"
    have keys: "map fst (pendingTransactions ?s1) =
                  take i (map fst ?reg) @ drop (Suc i) (map fst ?reg)"
      using delete_nth_keys [OF Suc.prems(1) i] by (simp add: log_def)
    have d1: "distinct (map fst (pendingTransactions ?s1))"
      using Suc.prems(1) by (simp add: log_def distinct_delete)
    have "length (map fst (pendingTransactions ?s1)) = length ?reg - 1"
      unfolding keys using i by simp
    then have l1: "i + j < length (pendingTransactions ?s1)"
      using Suc.prems(2) by simp
    have "map fst (pendingTransactions ?s1) ! (i + j) = map fst ?reg ! (Suc i + j)"
      unfolding keys using i Suc.prems(2) by (simp add: nth_append)
    with l1 Suc.prems(2,3) have k1: "fst (pendingTransactions ?s1 ! (i + j)) = h"
      by simp
    from run confirmed(2) have
      "(retry_visit cfg net ^^ Suc j) (Running, i, fp, ?s1, n1) = (c', i', fp', s', n')"
      by metis
    from Suc.IH [OF d1 l1 k1 this] show ?thesis .
  qed
qed

lemma reach_removed:
  assumes R: "\<forall>m. \<exists>rc m'. getTransactionReceipt net h m = (Inr (Some rc), m')"
  shows "distinct (map fst (pendingTransactions s)) \<Longrightarrow>
         i + j < length (pendingTransactions s) \<Longrightarrow>
         fst (pendingTransactions s ! (i + j)) = h \<Longrightarrow>
         (retry_visit cfg net ^^ Suc j) (Running, i, fp, s, n) = (c', i', fp', s', n') \<Longrightarrow>
         (\<exists>e. c' = Aborted e) \<or>
         (c' = Running \<and> h \<notin> fst ` set (pendingTransactions s'))"
proof (induction j arbitrary: i fp s n)
  case 0
  let ?reg = "pendingTransactions s"
  from 0 have i: "i < length ?reg" and k: "fst (?reg ! i) = h" by simp_all
  from 0 have v: "retry_visit cfg net (Running, i, fp, s, n) = (c', i', fp', s', n')"
    by (simp del: retry_visit.simps)
  from i show ?case
  proof (cases rule: retry_visit_cases [where net = net and n = n and cfg = cfg and fp = fp])
    case (aborted e n1)
    with v show ?thesis by (auto simp del: retry_visit.simps)
  next
    case (resent n1 r s2 n2)
    from R obtain rc0 m0 where "getTransactionReceipt net h n = (Inr (Some rc0), m0)" by blast
    with resent(1) k show ?thesis by simp
  next
    case (confirmed rc n1)
    with v k have "c' = Running"
      and "s' = (log (LogAlreadyConfirmed h) s)\<lparr>pendingTransactions := AList.delete h ?reg\<rparr>"
      by (simp_all del: retry_visit.simps)
    then show ?thesis by (simp add: log_def delete_notin_dom)
  qed
next
  case (Suc j)
  let ?reg = "pendingTransactions s"
  from Suc.prems have i: "i < length ?reg" by simp
  from Suc.prems(4) have run:
    "(retry_visit cfg net ^^ Suc j) (retry_visit cfg net (Running, i, fp, s, n)) =
       (c', i', fp', s', n')"
    by (simp only: funpow_Suc_right o_apply)
  from i show ?case
  proof (cases rule: retry_visit_cases [where net = net and n = n and cfg = cfg and fp = fp])
    case (aborted e n1)
    have "(retry_visit cfg net ^^ Suc j) (Aborted e, i, fp, s, n1) = (Aborted e, i, fp, s, n1)"
      by (rule retry_visit_stopped) simp
    with run aborted(2) have "(c', i', fp', s', n') = (Aborted e, i, fp, s, n1)"
      by metis
    then show ?thesis by blast
  next
    case (resent n1 r s2 n2)
    from processTransaction_keys [OF resent(2)] obtain new where
      keys: "map fst (pendingTransactions s2) = map fst ?reg @ new"
      and d2: "distinct (map fst (pendingTransactions s2))"
      using Suc.prems(1) by (auto simp: log_def)
    have len: "length (pendingTransactions s2) = length ?reg + length new"
      using keys by (metis length_append length_map)
    then have l2: "Suc i + j < length (pendingTransactions s2)"
      using Suc.prems(2) by simp
    have "map fst (pendingTransactions s2) ! (Suc i + j) = map fst ?reg ! (Suc i + j)"
      using keys Suc.prems(2) by (simp add: nth_append)
    with l2 Suc.prems(2,3) have k2: "fst (pendingTransactions s2 ! (Suc i + j)) = h"
      by simp
    from run resent(3) have
      "(retry_visit cfg net ^^ Suc j) (Running, Suc i, True, s2, n2) = (c', i', fp', s', n')"
      by metis
    from Suc.IH [OF d2 l2 k2 this] show ?thesis .
  next
    case (confirmed rc n1)
    let ?k = "fst (?reg ! i)"
    let ?s1 = "(log (LogAlreadyConfirmed ?k) s)\<lparr>pendingTransactions := AList.delete ?k ?reg\<rparr>"
    have keys: "map fst (pendingTransactions ?s1) =
                  take i (map fst ?reg) @ drop (Suc i) (map fst ?reg)"
      using delete_nth_keys [OF Suc.prems(1) i] by (simp add: log_def)
    have d1: "distinct (map fst (pendingTransactions ?s1))"
      using Suc.prems(1) by (simp add: log_def distinct_delete)
    have "length (map fst (pendingTransactions ?s1)) = length ?reg - 1"
      unfolding keys using i by simp
    then have l1: "i + j < length (pendingTransactions ?s1)"
      using Suc.prems(2) by simp
    have "map fst (pendingTransactions ?s1) ! (i + j) = map fst ?reg ! (Suc i + j)"
      unfolding keys using i Suc.prems(2) by (simp add: nth_append)
    with l1 Suc.prems(2,3) have k1: "fst (pendingTransactions ?s1 ! (i + j)) = h"
      by simp
    from run confirmed(2) have
      "(retry_visit cfg net ^^ Suc j) (Running, i, fp, ?s1, n1) = (c', i', fp', s', n')"
      by metis
    from Suc.IH [OF d1 l1 k1 this] show ?thesis .
  qed
qed

lemma first_turn_confirmed:
  "pass_status_of (pass_turns (Suc 0) Server_js (test_net [''0xOLD'']) (one_pending, 0)) = Running"
  by (simp add: pass_turns_def pass_status_of_def one_pending_def init_server_def test_net_def
        log_def Let_def)

lemma first_turn_resent:
  "pass_status_of (pass_turns (Suc 0) Server_js (test_net [''0xHASH'']) (one_pending, 0)) = Running"
  by (simp add: pass_turns_def pass_status_of_def one_pending_def pt_defs ex_defs Let_def)


section \<open>The claims\<close>

text \<open>
  C1, as the specification states it: the nonces that concurrent calls hold before they
  broadcast are pairwise distinct. The code does not see to that. Two calls are made and
  both are resumed from line 70 before either goes on; the network reports the count 7 to
  both. Both hold the nonce 7, and when the two have run to their end, interleaved, both
  requests handed to \<^verbatim>\<open>sendTransaction\<close> carry it.
\<close>

theorem C1_same_nonce_counterexample:
  "\<not> distinct (map held_nonce
        (fst (run_schedule Server_js (test_net []) [0, 1]
           (map start_call [(42, ''0xABC''), (43, ''0xDEF'')], init_server, 0)))) \<and>
   map tx_nonce
     (broadcasts (fst (snd (run_schedule Server_js (test_net []) [0, 1, 0, 1, 0, 1]
        (map start_call [(42, ''0xABC''), (43, ''0xDEF'')], init_server, 0))))) = [7, 7]"
  by (simp add: start_call_def ex_defs track_nonce_def record_sent_def log_def build_tx_def
        Let_def)

text \<open>
  C1, amended: when \<open>N\<close> calls have been made and each has been resumed from line 70, none
  having broadcast yet, the nonces they hold are the answers of \<open>N\<close> successive
  \<^verbatim>\<open>nonceManager.getNonce()\<close> calls, in that order, whatever \<^verbatim>\<open>usedNonces\<close> and the registry
  contain (a call whose answer was a rejection holds none). They are pairwise distinct
  exactly when these answers are.
\<close>

theorem C1_nonces_are_the_sequencer_replies:
  "map held_nonce
     (fst (run_schedule cfg net [0..<length calls] (map start_call calls, s, n))) =
   map reply_nonce (nonce_replies net (length calls) n)"
  using run_first_awaits [of "[]" 0 cfg net calls s n] by auto

theorem C1_nonces_are_the_sequencer_replies_witness:
  "map held_nonce
     (fst (run_schedule Server_js (test_net [])
        [0..<length [(42::int, ''0xABC''), (43, ''0xDEF'')]]
        (map start_call [(42, ''0xABC''), (43, ''0xDEF'')], init_server, 0))) =
   [Some 7, Some 7]"
proof -
  have "map reply_nonce
          (nonce_replies (test_net []) (length [(42::int, ''0xABC''), (43, ''0xDEF'')]) 0) =
        [Some 7, Some 7]"
    by (simp add: test_net_def numeral_2_eq_2)
  with C1_nonces_are_the_sequencer_replies
         [of Server_js "test_net []" "[(42, ''0xABC''), (43, ''0xDEF'')]" init_server 0]
  show ?thesis by (rule trans)
qed

text \<open>
  C2, as the specification states it: a pass over a registry with one entry that has no
  receipt removes the old entry and leaves one new entry. Here the resend succeeds under
  the hash \<open>0xHASH\<close>, the loop goes on to the entry it has just added, finds a receipt for it
  and deletes it. The pass ends with the old entry, untouched, as the only one.
\<close>

theorem C2_old_entry_stays_counterexample:
  "map_option (pendingTransactions \<circ> fst \<circ> snd)
     (retryPendingTransactions (Suc (Suc (Suc 0))) Server_js (test_net [''0xHASH''])
        (one_pending, 0)) = Some [(''0xOLD'', old_entry)]"
  by (simp add: pass_resend_then_confirmed)

text \<open>
  C2, amended: for an entry whose handle has no receipt whenever the network is asked, a pass
  never removes the old entry and never resends it twice, at any turn of any pass, also of
  one that is aborted or does not end. Unless the receipt query of an earlier entry is
  rejected, the pass has resent it once when it has taken one turn more than its position,
  and so has a pass that completes. The turn at the entry makes one call of
  \<^verbatim>\<open>processTransaction\<close>, with the score and the address of the entry, and moves to the next
  position; that call either fails and leaves the registry as it was, or succeeds and sets,
  in the registry with the old entry still in it, the returned hash to a value with that
  score and address.
\<close>

theorem C2_unconfirmed_entry_resent_and_kept:
  assumes "distinct (map fst (pendingTransactions s))"
    and "p < length (pendingTransactions s)"
    and "fst (pendingTransactions s ! p) = h"
    and "\<forall>m. \<exists>m'. getTransactionReceipt net h m = (Inr None, m')"
  shows "(\<forall>k. h \<in> fst ` set (pendingTransactions (pass_server (pass_turns k cfg net (s, n)))) \<and>
              resends h (pass_server (pass_turns k cfg net (s, n))) \<le> Suc (resends h s)) \<and>
         (\<forall>k. Suc p \<le> k \<longrightarrow>
              (\<exists>e. pass_status_of (pass_turns k cfg net (s, n)) = Aborted e) \<or>
              resends h (pass_server (pass_turns k cfg net (s, n))) = Suc (resends h s)) \<and>
         (\<forall>fuel s' n'.
            retryPendingTransactions fuel cfg net (s, n) = Some (Inr (), s', n') \<longrightarrow>
              h \<in> fst ` set (pendingTransactions s') \<and> resends h s' = Suc (resends h s)) \<and>
         (\<forall>i fp s1 n1 d.
            i < length (pendingTransactions s1) \<and> pendingTransactions s1 ! i = (h, d) \<longrightarrow>
              (\<exists>r s2 n2.
                 processTransaction cfg net (pt_score d) (pt_address d)
                   (log (LogResending h) s1, snd (getTransactionReceipt net h n1)) = (r, s2, n2) \<and>
                 retry_visit cfg net (Running, i, fp, s1, n1) = (Running, Suc i, True, s2, n2) \<and>
                 ((\<not> success r \<and> pendingTransactions s2 = pendingTransactions s1) \<or>
                  (\<exists>hash nonce.
                     success r \<and> transactionHash r = Some hash \<and>
                     pendingTransactions s2 =
                       AList.update hash
                         \<lparr>pt_nonce = nonce, pt_score = pt_score d, pt_address = pt_address d\<rparr>
                         (pendingTransactions s1)))))"
proof (intro conjI allI impI)
  have hin: "h \<in> set (map fst (pendingTransactions s))"
    using assms(2,3) by (metis length_map nth_map nth_mem)
  have inv: "\<And>k c' i' fp' s' n'.
      (retry_visit cfg net ^^ k) (Running, 0, False, log LogChecking s, n) = (c', i', fp', s', n') \<Longrightarrow>
      distinct (map fst (pendingTransactions s')) \<and>
      h \<in> set (map fst (pendingTransactions s')) \<and>
      resends h s' =
        resends h s + (if h \<in> set (take i' (map fst (pendingTransactions s'))) then 1 else 0)"
  proof -
    fix k c' i' fp' s' n'
    assume st: "(retry_visit cfg net ^^ k) (Running, 0, False, log LogChecking s, n) =
                  (c', i', fp', s', n')"
    show "distinct (map fst (pendingTransactions s')) \<and>
      h \<in> set (map fst (pendingTransactions s')) \<and>
      resends h s' =
        resends h s + (if h \<in> set (take i' (map fst (pendingTransactions s'))) then 1 else 0)"
      using turns_kept [OF assms(4) _ _ _ st, of "resends h s"] assms(1) hin
      by (simp add: log_def resends_def)
  qed
  {
    fix k
    obtain c' i' fp' s' n' where
      st: "(retry_visit cfg net ^^ k) (Running, 0, False, log LogChecking s, n) =
             (c', i', fp', s', n')"
      by (metis prod_cases5)
    from inv [OF st]
    show "h \<in> fst ` set (pendingTransactions (pass_server (pass_turns k cfg net (s, n))))"
      and "resends h (pass_server (pass_turns k cfg net (s, n))) \<le> Suc (resends h s)"
      by (simp_all add: pass_turns_start st pass_server_def)
  }
  {
    fix k
    assume le: "Suc p \<le> k"
    then obtain m where k: "k = Suc p + m"
      using le_Suc_ex by blast
    obtain c1 i1 fp1 s1 n1 where
      st1: "(retry_visit cfg net ^^ Suc p) (Running, 0, False, log LogChecking s, n) =
              (c1, i1, fp1, s1, n1)"
      by (metis prod_cases5)
    obtain c' i' fp' s' n' where
      st: "(retry_visit cfg net ^^ m) (c1, i1, fp1, s1, n1) = (c', i', fp', s', n')"
      by (metis prod_cases5)
    have stk: "(retry_visit cfg net ^^ k) (Running, 0, False, log LogChecking s, n) =
                 (c', i', fp', s', n')"
      unfolding k turns_add st1 st ..
    have reach: "(\<exists>e. c1 = Aborted e) \<or>
                 (c1 = Running \<and> h \<in> set (take i1 (map fst (pendingTransactions s1))))"
      using reach_kept [OF assms(4) _ _ _ st1] assms(1,2,3) by (simp add: log_def)
    have "(\<exists>e. c' = Aborted e) \<or> resends h s' = Suc (resends h s)"
    proof (cases "\<exists>e. c1 = Aborted e")
      case True
      then have "(retry_visit cfg net ^^ m) (c1, i1, fp1, s1, n1) = (c1, i1, fp1, s1, n1)"
        by (intro retry_visit_stopped) auto
      with st True show ?thesis by auto
    next
      case False
      with reach have v1: "h \<in> set (take i1 (map fst (pendingTransactions s1)))"
        by blast
      from inv [OF st1] v1 have
        d1: "distinct (map fst (pendingTransactions s1))"
        and h1: "h \<in> set (map fst (pendingTransactions s1))"
        and c1: "resends h s1 =
                   resends h s + (if h \<in> set (take i1 (map fst (pendingTransactions s1))) then 1 else 0)"
        by simp_all
      from turns_kept [OF assms(4) d1 h1 c1 st] v1 inv [OF stk]
      show ?thesis by simp
    qed
    then show "(\<exists>e. pass_status_of (pass_turns k cfg net (s, n)) = Aborted e) \<or>
              resends h (pass_server (pass_turns k cfg net (s, n))) = Suc (resends h s)"
      by (simp add: pass_turns_start stk pass_server_def pass_status_of_def)
  }
  {
    fix fuel s' n'
    assume run: "retryPendingTransactions fuel cfg net (s, n) = Some (Inr (), s', n')"
    from run obtain fp s1 where
      loop: "retry_loop fuel cfg net 0 False (log LogChecking s, n) = Some (Inr fp, s1, n')"
      and s': "s' = (if \<not> fp then log LogNoPending s1 else s1)"
      by (rule retry_complete_cases)
    have "h \<in> fst ` set (pendingTransactions s1) \<and>
          count_list (console s1) (LogResending h) =
            count_list (console (log LogChecking s)) (LogResending h) + 1"
      using loop_kept [OF assms(4) loop] assms(1) hin by (simp add: log_def)
    then show "h \<in> fst ` set (pendingTransactions s')"
      and "resends h s' = Suc (resends h s)"
      using s' by (auto simp: log_def resends_def)
  }
  {
    fix i fp n1 d and s1 :: server
    assume at: "i < length (pendingTransactions s1) \<and> pendingTransactions s1 ! i = (h, d)"
    from assms(4) obtain m1 where q: "getTransactionReceipt net h n1 = (Inr None, m1)"
      by blast
    obtain r s2 n2 where
      pr: "processTransaction cfg net (pt_score d) (pt_address d) (log (LogResending h) s1, m1) =
            (r, s2, n2)"
      by (cases "processTransaction cfg net (pt_score d) (pt_address d)
                   (log (LogResending h) s1, m1)")
    have step: "retry_visit cfg net (Running, i, fp, s1, n1) = (Running, Suc i, True, s2, n2)"
      using at q pr by (simp add: Let_def)
    from processTransaction_registry [OF pr] pr q step
    show "\<exists>r s2 n2.
            processTransaction cfg net (pt_score d) (pt_address d)
              (log (LogResending h) s1, snd (getTransactionReceipt net h n1)) = (r, s2, n2) \<and>
            retry_visit cfg net (Running, i, fp, s1, n1) = (Running, Suc i, True, s2, n2) \<and>
            ((\<not> success r \<and> pendingTransactions s2 = pendingTransactions s1) \<or>
             (\<exists>hash nonce.
                success r \<and> transactionHash r = Some hash \<and>
                pendingTransactions s2 =
                  AList.update hash
                    \<lparr>pt_nonce = nonce, pt_score = pt_score d, pt_address = pt_address d\<rparr>
                    (pendingTransactions s1)))"
      by (simp add: log_def del: retry_visit.simps)
  }
qed

theorem C2_unconfirmed_entry_resent_and_kept_witness:
  "distinct (map fst (pendingTransactions one_pending)) \<and>
   0 < length (pendingTransactions one_pending) \<and>
   pendingTransactions one_pending ! 0 = (''0xOLD'', old_entry) \<and>
   pass_status_of (pass_turns (Suc 0) Server_js (test_net [''0xHASH'']) (one_pending, 0)) =
     Running \<and>
   resends ''0xOLD''
     (pass_server (pass_turns (Suc 0) Server_js (test_net [''0xHASH'']) (one_pending, 0))) =
     Suc 0 \<and>
   ''0xOLD'' \<in> fst ` set (pendingTransactions
      (pass_server (pass_turns (Suc 0) Server_js (test_net [''0xHASH'']) (one_pending, 0)))) \<and>
   ''0xOLD'' \<in> fst ` set (case_option [] (pendingTransactions \<circ> fst \<circ> snd)
     (retryPendingTransactions (Suc (Suc (Suc 0))) Server_js (test_net [''0xHASH''])
        (one_pending, 0))) \<and>
   resends ''0xOLD''
     (case_option init_server (fst \<circ> snd)
        (retryPendingTransactions (Suc (Suc (Suc 0))) Server_js (test_net [''0xHASH''])
           (one_pending, 0))) = Suc 0"
proof -
  have a: "distinct (map fst (pendingTransactions one_pending))"
    by (simp add: one_pending_def init_server_def)
  have b: "0 < length (pendingTransactions one_pending)"
    by (simp add: one_pending_def init_server_def)
  have b': "fst (pendingTransactions one_pending ! 0) = ''0xOLD''"
    by (simp add: one_pending_def init_server_def)
  have c: "\<forall>m. \<exists>m'. getTransactionReceipt (test_net [''0xHASH'']) ''0xOLD'' m = (Inr None, m')"
    by (simp add: test_net_def)
  have d: "pendingTransactions one_pending ! 0 = (''0xOLD'', old_entry)"
    by (simp add: one_pending_def init_server_def)
  have e: "resends ''0xOLD'' one_pending = 0"
    by (simp add: resends_def one_pending_def init_server_def)
  note th = C2_unconfirmed_entry_resent_and_kept [OF a b b' c, of Server_js 0]
  from th have kept:
    "''0xOLD'' \<in> fst ` set (pendingTransactions
       (pass_server (pass_turns (Suc 0) Server_js (test_net [''0xHASH'']) (one_pending, 0))))"
    by blast
  from th have "(\<exists>e. pass_status_of
                        (pass_turns (Suc 0) Server_js (test_net [''0xHASH'']) (one_pending, 0)) =
                      Aborted e) \<or>
                resends ''0xOLD''
                  (pass_server (pass_turns (Suc 0) Server_js (test_net [''0xHASH''])
                     (one_pending, 0))) = Suc (resends ''0xOLD'' one_pending)"
    by blast
  with first_turn_resent e have once:
    "resends ''0xOLD''
       (pass_server (pass_turns (Suc 0) Server_js (test_net [''0xHASH'']) (one_pending, 0))) =
     Suc 0"
    by simp
  from th pass_resend_then_confirmed e have fin:
    "''0xOLD'' \<in> fst ` set (pendingTransactions
          \<lparr>pendingTransactions = [(''0xOLD'', old_entry)],
           usedNonces = {7},
           console = [LogChecking, LogResending ''0xOLD'', LogUsingNonce 7 42,
                      LogTransactionSent 42 ''0xHASH'', LogAlreadyConfirmed ''0xHASH''],
           broadcasts =
             [\<lparr>tx_to = Some ''0xOWNER'', tx_value = 100000000000000, tx_gasLimit = 21000,
               tx_nonce = 7, tx_maxPriorityFeePerGas = Some 1, tx_maxFeePerGas = Some 10\<rparr>],
           watchers = [''0xHASH'']\<rparr>)"
    by blast
  show ?thesis
    using a b d first_turn_resent once kept fin
    by (simp add: pass_resend_then_confirmed resends_def)
qed



text \<open>
  C4. When the fee quote fetched by a call lacks the priority component or the maximum
  component, the call resolves to a failure that carries the message of the error thrown at
  line 78; the registry is the one it found, nothing was handed to \<^verbatim>\<open>sendTransaction\<close>, no
  watcher was attached, and the network was last asked for the fee quote.
\<close>

theorem C4_incomplete_fee_quote_fails:
  assumes "getNonce net n = (Inr nonce, n1)" and "getFeeData net n1 = (Inr fd, n2)"
    and "maxPriorityFeePerGas fd = None \<or> maxFeePerGas fd = None"
  shows "\<exists>s'. processTransaction cfg net score address (s, n) =
           (\<lparr>success = False, transactionHash = None, error = Some fee_error_message\<rparr>, s', n2) \<and>
         pendingTransactions s' = pendingTransactions s \<and> broadcasts s' = broadcasts s \<and>
         watchers s' = watchers s"
  using assms
  by (auto simp: pt_defs Let_def split: prod.splits sum.splits if_splits)

theorem C4_incomplete_fee_quote_fails_witness:
  "getNonce no_priority_net 0 = (Inr 7, 0) \<and>
   getFeeData no_priority_net 0 =
     (Inr \<lparr>maxPriorityFeePerGas = None, maxFeePerGas = Some 10\<rparr>, 0) \<and>
   fst (processTransaction Server_js no_priority_net 42 ''0xABC'' (init_server, 0)) =
     \<lparr>success = False, transactionHash = None, error = Some fee_error_message\<rparr> \<and>
   pendingTransactions
     (fst (snd (processTransaction Server_js no_priority_net 42 ''0xABC'' (init_server, 0)))) = []"
proof -
  have a: "getNonce no_priority_net 0 = (Inr 7, 0)"
    by (simp add: ex_defs)
  have b: "getFeeData no_priority_net 0 =
             (Inr \<lparr>maxPriorityFeePerGas = None, maxFeePerGas = Some 10\<rparr>, 0)"
    by (simp add: ex_defs)
  have c: "maxPriorityFeePerGas \<lparr>maxPriorityFeePerGas = None, maxFeePerGas = Some 10\<rparr> = None \<or>
           maxFeePerGas \<lparr>maxPriorityFeePerGas = None, maxFeePerGas = Some 10\<rparr> = None"
    by simp
  from C4_incomplete_fee_quote_fails [OF a b c, of Server_js 42 "''0xABC''" init_server]
  show ?thesis using a b by (auto simp: init_server_def)
qed

text \<open>
  C5, as the specification states it: the destination is never the address of the caller.
  In the second file it is: the request handed to \<^verbatim>\<open>sendTransaction\<close> for a call with the
  address \<open>0xABC\<close> has \<open>0xABC\<close> as its destination, while \<^verbatim>\<open>OWNER_WALLET\<close> is \<open>0xOWNER\<close>.
\<close>

theorem C5_destination_counterexample:
  "map tx_to (broadcasts (fst (snd
      (processTransaction part_000 (test_net []) 42 ''0xABC'' (init_server, 0))))) =
     [Some ''0xABC''] \<and>
   OWNER_WALLET part_000 = Some ''0xOWNER''"
  by (simp add: pt_defs ex_defs)

text \<open>
  C5, amended: a call hands at most one request to \<^verbatim>\<open>sendTransaction\<close>, exactly one when it
  succeeds. Its value is 0.0001 ether and its gas limit 21000 whatever the arguments; its
  destination is \<^verbatim>\<open>OWNER_WALLET\<close> in \<^verbatim>\<open>Server.js\<close>, whatever the arguments, and the \<^verbatim>\<open>address\<close>
  argument in the second file.
\<close>

theorem C5_fixed_transfer_policy:
  assumes "processTransaction cfg net score address (s, n) = (r, s', n')"
  shows "\<exists>new. broadcasts s' = broadcasts s @ new \<and> length new \<le> 1 \<and>
           (\<forall>t \<in> set new.
              tx_to t = (case running cfg of Backend_Server_js \<Rightarrow> OWNER_WALLET cfg
                                              | Unnamed_part_000 \<Rightarrow> Some address) \<and>
              tx_value t = 100000000000000 \<and> tx_gasLimit t = 21000) \<and>
           (success r \<longrightarrow> length new = 1)"
  using assms
  by (auto simp: pt_defs Let_def parseEther_0_0001_def split: prod.splits sum.splits if_splits)

theorem C5_fixed_transfer_policy_witness:
  "broadcasts
     (fst (snd (processTransaction Server_js (test_net []) 42 ''0xABC'' (init_server, 0)))) =
     broadcasts init_server @
       [\<lparr>tx_to = Some ''0xOWNER'', tx_value = 100000000000000, tx_gasLimit = 21000,
           tx_nonce = 7, tx_maxPriorityFeePerGas = Some 1, tx_maxFeePerGas = Some 10\<rparr>] \<and>
   running Server_js = Backend_Server_js \<and> OWNER_WALLET Server_js = Some ''0xOWNER''"
  using C5_fixed_transfer_policy [OF scenario_success]
  by (simp add: scenario_success) (simp add: Server_js_def init_server_def)

text \<open>
  C6, as the specification states it: the response reflects the outcome of the attempt and
  a failure is never shown as a success. The handler of the second file answers before the
  attempt: when the network refuses the transaction, the call resolves to a failure and the
  response sent says \<^verbatim>\<open>success: true\<close>.
\<close>

theorem C6_masked_failure_counterexample:
  "res_success (fst (jump part_000 rejecting_net 42 ''0xABC'' (init_server, 0))) = True \<and>
   fst (processTransaction part_000 rejecting_net 42 ''0xABC'' (init_server, 0)) =
     \<lparr>success = False, transactionHash = None, error = Some ''insufficient funds''\<rparr>"
  by (simp add: jump_def pt_defs ex_defs)

text \<open>
  C6, amended: in \<^verbatim>\<open>Server.js\<close> the response is made from what \<^verbatim>\<open>processTransaction\<close> resolved
  to: its \<^verbatim>\<open>success\<close>, its hash and its error message (an empty string becomes \<^verbatim>\<open>null\<close>), and
  when there is a hash its watcher is still waiting, so the response does not wait for the
  confirmation. In the second file the response is \<^verbatim>\<open>success: true\<close>, "queued", without hash
  or error, whatever the call resolves to.
\<close>

theorem C6_response_reflects_attempt:
  assumes "jump cfg net score address (s, n) = (resp, s', n')"
  shows "case running cfg of
           Backend_Server_js \<Rightarrow>
             (\<exists>r. processTransaction cfg net score address
                     (log (LogProcessingJump score address) s, n) = (r, s', n') \<and>
                  res_success resp = success r \<and>
                  res_transactionHash resp =
                    (case transactionHash r of None \<Rightarrow> None
                     | Some h \<Rightarrow> if h = [] then None else Some h) \<and>
                  res_error resp =
                    (case error r of None \<Rightarrow> None
                     | Some m \<Rightarrow> if m = [] then None else Some m) \<and>
                  (\<forall>h. transactionHash r = Some h \<longrightarrow> h \<in> set (watchers s')))
         | Unnamed_part_000 \<Rightarrow>
             (\<exists>r. processTransaction cfg net score address (s, n) = (r, s', n')) \<and>
             res_success resp \<and> res_message resp = Transaction_queued_for_processing \<and>
             res_transactionHash resp = None \<and> res_error resp = None"
  using assms
  apply (cases "running cfg")
   apply (auto simp: jump_def split: prod.splits option.splits)
  apply (auto simp: pt_defs Let_def split: prod.splits sum.splits if_splits)
  done

theorem C6_response_reflects_attempt_witness:
  "res_success (fst (jump Server_js (test_net []) 42 ''0xABC'' (init_server, 0))) \<and>
   res_transactionHash (fst (jump Server_js (test_net []) 42 ''0xABC'' (init_server, 0))) =
     Some ''0xHASH'' \<and>
   ''0xHASH'' \<in> set (watchers
      (fst (snd (jump Server_js (test_net []) 42 ''0xABC'' (init_server, 0)))))"
  using C6_response_reflects_attempt [OF scenario_jump] by (simp add: scenario_jump)

text \<open>
  C7, as the specification states it: after an error of the watcher the entry is left so
  that a later pass of the reconciler resolves it. A pass does not: it deletes an entry only
  when it finds a receipt. Here a call succeeds, its watcher fails, and a later pass finds
  no receipt and resends; the network refuses the resend, the pass completes, and the entry
  is in the registry as before.
\<close>

theorem C7_later_pass_counterexample:
  "map_option (pendingTransactions \<circ> fst \<circ> snd)
     (retryPendingTransactions (Suc (Suc 0)) Server_js rejecting_net
        (wait_settled ''0xHASH'' (Inl (Error ''timeout''))
           (fst (snd (processTransaction Server_js (test_net []) 42 ''0xABC'' (init_server, 0)))),
         Suc 0)) =
     Some [(''0xHASH'', \<lparr>pt_nonce = 7, pt_score = 42, pt_address = ''0xABC''\<rparr>)]"
  by (simp add: scenario_success wait_settled_def retryPendingTransactions_def Let_def)
     (simp add: pt_defs ex_defs Let_def)

text \<open>
  C7, amended: a successful call attaches a watcher for the hash it returns. When the wait
  resolves, the callback deletes that hash from the registry and nothing else; when the wait
  rejects, the callback leaves the registry as it is. Either callback only changes the state
  of the server: no result and no error goes to a caller. Nothing is said of what a later
  pass does with the entry.
\<close>

theorem C7_watcher_removes_or_leaves:
  assumes "processTransaction cfg net score address (s, n) = (r, s', n')"
    and "transactionHash r = Some hash"
  shows "hash \<in> set (watchers s') \<and>
         (\<forall>s1 rc. map_of (pendingTransactions (wait_settled hash (Inr rc) s1)) =
                     (map_of (pendingTransactions s1))(hash := None)) \<and>
         (\<forall>s1 e. pendingTransactions (wait_settled hash (Inl e) s1) = pendingTransactions s1)"
  using assms
  by (auto simp: pt_defs wait_settled_def Let_def delete_conv'
           split: prod.splits sum.splits if_splits)

theorem C7_watcher_removes_or_leaves_witness:
  "transactionHash
     (fst (processTransaction Server_js (test_net []) 42 ''0xABC'' (init_server, 0))) =
     Some ''0xHASH'' \<and>
   ''0xHASH'' \<in> set (watchers
      (fst (snd (processTransaction Server_js (test_net []) 42 ''0xABC'' (init_server, 0))))) \<and>
   pendingTransactions (wait_settled ''0xHASH'' (Inr (Receipt 100))
      (fst (snd (processTransaction Server_js (test_net []) 42 ''0xABC'' (init_server, 0))))) =
     [] \<and>
   pendingTransactions (wait_settled ''0xHASH'' (Inl (Error ''timeout''))
      (fst (snd (processTransaction Server_js (test_net []) 42 ''0xABC'' (init_server, 0))))) =
     [(''0xHASH'', \<lparr>pt_nonce = 7, pt_score = 42, pt_address = ''0xABC''\<rparr>)]"
  using C7_watcher_removes_or_leaves [OF scenario_success, of "''0xHASH''"]
  by (simp add: scenario_success wait_settled_def log_def)

text \<open>
  C8, as the specification states it: one pass removes every entry whose handle has a
  receipt. Lines 116-117 do not catch a rejected receipt query. Here the registry has two
  entries, the network has a receipt for the second and rejects the query for the first: the
  pass rejects at the first entry and the second, confirmed, is still in the registry.
\<close>

theorem C8_aborted_pass_counterexample:
  "getTransactionReceipt rpc_down_net ''0xOLD'' 0 = (Inr (Some (Receipt 100)), 0) \<and>
   map_option fst
     (retryPendingTransactions (Suc (Suc (Suc 0))) Server_js rpc_down_net (two_pending, 0)) =
     Some (Inl (Error ''rpc down'')) \<and>
   map_option (pendingTransactions \<circ> fst \<circ> snd)
     (retryPendingTransactions (Suc (Suc (Suc 0))) Server_js rpc_down_net (two_pending, 0)) =
     Some [(''0xFIRST'', old_entry), (''0xOLD'', old_entry)]"
  by (simp add: retryPendingTransactions_def rpc_down_net_def two_pending_def test_net_def
        init_server_def log_def Let_def)

text \<open>
  C8, amended: for an entry whose handle has a receipt whenever the network is asked, no
  pass resends it, at any turn, also of a pass that is aborted or does not end. Unless the
  receipt query of an earlier entry is rejected, the entry is deleted when the pass has taken
  one turn more than its position, and a pass that completes leaves the handle out of the
  registry. Over a registry with that entry alone the pass does complete: it asks for the
  receipt, deletes the entry, hands nothing to \<^verbatim>\<open>sendTransaction\<close> and reports that nothing is
  pending.
\<close>

theorem C8_confirmed_entry_removed:
  assumes "distinct (map fst (pendingTransactions s))"
    and "p < length (pendingTransactions s)"
    and "fst (pendingTransactions s ! p) = h"
    and "\<forall>m. \<exists>rc m'. getTransactionReceipt net h m = (Inr (Some rc), m')"
  shows "(\<forall>k. resends h (pass_server (pass_turns k cfg net (s, n))) = resends h s) \<and>
         ((\<exists>e. pass_status_of (pass_turns (Suc p) cfg net (s, n)) = Aborted e) \<or>
          h \<notin> fst ` set (pendingTransactions (pass_server (pass_turns (Suc p) cfg net (s, n))))) \<and>
         (\<forall>fuel s' n'.
            retryPendingTransactions fuel cfg net (s, n) = Some (Inr (), s', n') \<longrightarrow>
              h \<notin> fst ` set (pendingTransactions s') \<and> resends h s' = resends h s) \<and>
         (\<forall>d fuel.
            pendingTransactions s = [(h, d)] \<longrightarrow>
              (\<exists>s' n'. retryPendingTransactions (Suc (Suc fuel)) cfg net (s, n) =
                          Some (Inr (), s', n') \<and>
                 pendingTransactions s' = [] \<and> broadcasts s' = broadcasts s \<and>
                 console s' = console s @ [LogChecking, LogAlreadyConfirmed h, LogNoPending]))"
proof (intro conjI allI impI)
  fix k
  obtain c' i' fp' s' n' where
    st: "(retry_visit cfg net ^^ k) (Running, 0, False, log LogChecking s, n) =
           (c', i', fp', s', n')"
    by (metis prod_cases5)
  have "resends h s' = resends h s"
    using turns_removed [OF assms(4) _ _ _ st, of "resends h s"] assms(1)
    by (simp add: log_def resends_def)
  then show "resends h (pass_server (pass_turns k cfg net (s, n))) = resends h s"
    by (simp add: pass_turns_start st pass_server_def)
next
  obtain c' i' fp' s' n' where
    st: "(retry_visit cfg net ^^ Suc p) (Running, 0, False, log LogChecking s, n) =
           (c', i', fp', s', n')"
    by (metis prod_cases5)
  have "(\<exists>e. c' = Aborted e) \<or> (c' = Running \<and> h \<notin> fst ` set (pendingTransactions s'))"
    using reach_removed [OF assms(4) _ _ _ st] assms(1,2,3) by (simp add: log_def)
  then show "(\<exists>e. pass_status_of (pass_turns (Suc p) cfg net (s, n)) = Aborted e) \<or>
          h \<notin> fst ` set (pendingTransactions (pass_server (pass_turns (Suc p) cfg net (s, n))))"
    unfolding pass_turns_start st by (auto simp: pass_server_def pass_status_of_def)
next
  fix fuel s' n'
  assume run: "retryPendingTransactions fuel cfg net (s, n) = Some (Inr (), s', n')"
  from run obtain fp s1 where
    loop: "retry_loop fuel cfg net 0 False (log LogChecking s, n) = Some (Inr fp, s1, n')"
    and s': "s' = (if \<not> fp then log LogNoPending s1 else s1)"
    by (rule retry_complete_cases)
  have "h \<notin> fst ` set (pendingTransactions s1) \<and>
        count_list (console s1) (LogResending h) =
          count_list (console (log LogChecking s)) (LogResending h)"
    using loop_removed [OF assms(4) loop] assms(1) by (simp add: log_def)
  then show "h \<notin> fst ` set (pendingTransactions s')"
    and "resends h s' = resends h s"
    using s' by (auto simp: log_def resends_def)
next
  fix d fuel
  assume one: "pendingTransactions s = [(h, d)]"
  from assms(4) obtain rc n1 where q: "getTransactionReceipt net h n = (Inr (Some rc), n1)"
    by blast
  have "retryPendingTransactions (Suc (Suc fuel)) cfg net (s, n) =
          Some (Inr (),
            log LogNoPending
              ((log (LogAlreadyConfirmed h) (log LogChecking s))\<lparr>pendingTransactions := []\<rparr>),
            n1)"
    using one q by (simp add: retryPendingTransactions_def log_def Let_def)
  then show "\<exists>s' n'. retryPendingTransactions (Suc (Suc fuel)) cfg net (s, n) =
                          Some (Inr (), s', n') \<and>
                 pendingTransactions s' = [] \<and> broadcasts s' = broadcasts s \<and>
                 console s' = console s @ [LogChecking, LogAlreadyConfirmed h, LogNoPending]"
    by (simp add: log_def)
qed

theorem C8_confirmed_entry_removed_witness:
  "distinct (map fst (pendingTransactions one_pending)) \<and>
   0 < length (pendingTransactions one_pending) \<and>
   fst (pendingTransactions one_pending ! 0) = ''0xOLD'' \<and>
   pendingTransactions one_pending = [(''0xOLD'', old_entry)] \<and>
   pass_status_of (pass_turns (Suc 0) Server_js (test_net [''0xOLD'']) (one_pending, 0)) =
     Running \<and>
   ''0xOLD'' \<notin> fst ` set (pendingTransactions
      (pass_server (pass_turns (Suc 0) Server_js (test_net [''0xOLD'']) (one_pending, 0)))) \<and>
   map_option (pendingTransactions \<circ> fst \<circ> snd)
     (retryPendingTransactions (Suc (Suc 0)) Server_js (test_net [''0xOLD'']) (one_pending, 0)) =
     Some []"
proof -
  have a: "distinct (map fst (pendingTransactions one_pending))"
    by (simp add: one_pending_def init_server_def)
  have b: "0 < length (pendingTransactions one_pending)"
    by (simp add: one_pending_def init_server_def)
  have b': "fst (pendingTransactions one_pending ! 0) = ''0xOLD''"
    by (simp add: one_pending_def init_server_def)
  have c: "\<forall>m. \<exists>rc m'.
             getTransactionReceipt (test_net [''0xOLD'']) ''0xOLD'' m = (Inr (Some rc), m')"
    by (simp add: test_net_def)
  have d: "pendingTransactions one_pending = [(''0xOLD'', old_entry)]"
    by (simp add: one_pending_def init_server_def)
  note th = C8_confirmed_entry_removed [OF a b b' c, of Server_js 0]
  from th first_turn_confirmed have gone:
    "''0xOLD'' \<notin> fst ` set (pendingTransactions
       (pass_server (pass_turns (Suc 0) Server_js (test_net [''0xOLD'']) (one_pending, 0))))"
    by auto
  from th d obtain s' n' where
    run: "retryPendingTransactions (Suc (Suc 0)) Server_js (test_net [''0xOLD''])
            (one_pending, 0) = Some (Inr (), s', n')"
    and "pendingTransactions s' = []"
    by blast
  then show ?thesis using a b b' d gone first_turn_confirmed by simp
qed

text \<open>
  C9. Whatever the network answers, a call of \<^verbatim>\<open>processTransaction\<close> resolves to a result
  object, and the answers decide which. When \<^verbatim>\<open>getNonce\<close>, \<^verbatim>\<open>getFeeData\<close> or
  \<^verbatim>\<open>sendTransaction\<close> rejects, it is \<^verbatim>\<open>{success: false, error}\<close> with the message of that
  error; when the fee quote lacks a component, it is that with the message of line 78; when
  the broadcast is accepted, it is \<^verbatim>\<open>{success: true, transactionHash}\<close> with the hash of the
  broadcast. There is no other case: every error thrown in the \<^verbatim>\<open>try\<close> block is caught.
\<close>

theorem C9_always_resolves:
  "fst (processTransaction cfg net score address (s, n)) =
     (case getNonce net n of
        (Inl e, n1) \<Rightarrow> \<lparr>success = False, transactionHash = None, error = Some (message e)\<rparr>
      | (Inr nonce, n1) \<Rightarrow>
          (case getFeeData net n1 of
             (Inl e, n2) \<Rightarrow>
               \<lparr>success = False, transactionHash = None, error = Some (message e)\<rparr>
           | (Inr fd, n2) \<Rightarrow>
               (if maxPriorityFeePerGas fd = None \<or> maxPriorityFeePerGas fd = Some 0 \<or>
                   maxFeePerGas fd = None \<or> maxFeePerGas fd = Some 0
                then \<lparr>success = False, transactionHash = None,
                       error = Some fee_error_message\<rparr>
                else
                  (case sendTransaction net
                          \<lparr>tx_to = (case running cfg of
                                      Backend_Server_js \<Rightarrow> OWNER_WALLET cfg
                                    | Unnamed_part_000 \<Rightarrow> Some address),
                           tx_value = 100000000000000, tx_gasLimit = 21000, tx_nonce = nonce,
                           tx_maxPriorityFeePerGas = maxPriorityFeePerGas fd,
                           tx_maxFeePerGas = maxFeePerGas fd\<rparr> n2 of
                     (Inl e, n3) \<Rightarrow>
                       \<lparr>success = False, transactionHash = None, error = Some (message e)\<rparr>
                   | (Inr hash, n3) \<Rightarrow>
                       \<lparr>success = True, transactionHash = Some hash, error = None\<rparr>))))"
proof -
  have f: "\<And>x. falsy x \<longleftrightarrow> x = None \<or> x = Some 0"
    by (case_tac x) auto
  show ?thesis
    by (auto simp: pt_defs Let_def f parseEther_0_0001_def
             split: prod.splits sum.splits if_splits)
qed

theorem C9_always_resolves_witness:
  "fst (processTransaction Server_js rejecting_net 42 ''0xABC'' (init_server, 0)) =
     \<lparr>success = False, transactionHash = None, error = Some ''insufficient funds''\<rparr> \<and>
   fst (processTransaction Server_js (test_net []) 42 ''0xABC'' (init_server, 0)) =
     \<lparr>success = True, transactionHash = Some ''0xHASH'', error = None\<rparr>"
  using C9_always_resolves [of Server_js rejecting_net 42 "''0xABC''" init_server 0]
    C9_always_resolves [of Server_js "test_net []" 42 "''0xABC''" init_server 0]
  by (simp add: ex_defs)

text \<open>
  C10. Two states that differ only in \<^verbatim>\<open>usedNonces\<close> give, for the same arguments and the same
  network, the same result, the same registry, the same requests to \<^verbatim>\<open>sendTransaction\<close>, the
  same watchers and the same network state; their consoles differ at most in the line that
  line 72 writes.
\<close>

theorem C10_usedNonces_without_influence:
  "fst (processTransaction cfg net score address (s\<lparr>usedNonces := U\<rparr>, n)) =
     fst (processTransaction cfg net score address (s\<lparr>usedNonces := U'\<rparr>, n)) \<and>
   pendingTransactions
       (fst (snd (processTransaction cfg net score address (s\<lparr>usedNonces := U\<rparr>, n)))) =
     pendingTransactions
       (fst (snd (processTransaction cfg net score address (s\<lparr>usedNonces := U'\<rparr>, n)))) \<and>
   broadcasts (fst (snd (processTransaction cfg net score address (s\<lparr>usedNonces := U\<rparr>, n)))) =
     broadcasts (fst (snd (processTransaction cfg net score address (s\<lparr>usedNonces := U'\<rparr>, n)))) \<and>
   watchers (fst (snd (processTransaction cfg net score address (s\<lparr>usedNonces := U\<rparr>, n)))) =
     watchers (fst (snd (processTransaction cfg net score address (s\<lparr>usedNonces := U'\<rparr>, n)))) \<and>
   snd (snd (processTransaction cfg net score address (s\<lparr>usedNonces := U\<rparr>, n))) =
     snd (snd (processTransaction cfg net score address (s\<lparr>usedNonces := U'\<rparr>, n))) \<and>
   filter (\<lambda>l. \<not> is_nonce_log l)
       (console (fst (snd (processTransaction cfg net score address (s\<lparr>usedNonces := U\<rparr>, n))))) =
     filter (\<lambda>l. \<not> is_nonce_log l)
       (console (fst (snd (processTransaction cfg net score address (s\<lparr>usedNonces := U'\<rparr>, n)))))"
  by (auto simp: pt_defs Let_def split: prod.splits sum.splits if_splits)

end
